theory Spec2Isabelle
  imports Complex_Main "HOL-Library.Product_Lexorder" "HOL-Library.Log_Nat"
begin

section \<open>Python strings\<close>

text \<open>
  A Python \<open>str\<close> is modelled as a HOL \<open>string\<close>; a character is read as the code
  point with the same number, so the model covers the texts whose code points are
  below 256. The character classes below are those of Python's \<open>str.isspace\<close>,
  \<open>str.isupper\<close>, \<open>str.islower\<close> and \<open>str.lower\<close> on these code points.
\<close>

definition newline :: char where
  "newline = CHR 0x0A"

definition isspace_char :: "char \<Rightarrow> bool" where
  "isspace_char c =
     (let k = (of_char c :: nat)
      in (9 \<le> k \<and> k \<le> 13) \<or> (28 \<le> k \<and> k \<le> 32) \<or> k = 133 \<or> k = 160)"

definition isupper_char :: "char \<Rightarrow> bool" where
  "isupper_char c =
     (let k = (of_char c :: nat)
      in (65 \<le> k \<and> k \<le> 90) \<or> (192 \<le> k \<and> k \<le> 214) \<or> (216 \<le> k \<and> k \<le> 222))"

definition islower_char :: "char \<Rightarrow> bool" where
  "islower_char c =
     (let k = (of_char c :: nat)
      in (97 \<le> k \<and> k \<le> 122) \<or> k = 170 \<or> k = 181 \<or> k = 186
         \<or> (223 \<le> k \<and> k \<le> 246) \<or> (248 \<le> k \<and> k \<le> 255))"

definition lower_char :: "char \<Rightarrow> char" where
  "lower_char c = (if isupper_char c then char_of ((of_char c :: nat) + 32) else c)"

text \<open>\<open>s.split("\n")\<close>: the pieces between line feeds; never empty.\<close>

fun split_nl :: "string \<Rightarrow> string list" where
  "split_nl [] = [[]]"
| "split_nl (c # cs) =
     (if c = newline then [] # split_nl cs
      else (case split_nl cs of [] \<Rightarrow> [[c]] | l # ls \<Rightarrow> (c # l) # ls))"

text \<open>\<open>s.strip()\<close>, \<open>s.startswith(p)\<close>, \<open>sub in s\<close>, \<open>s.islower()\<close>,
  \<open>s.isupper()\<close>, \<open>s.lower()\<close>.\<close>

definition strip :: "string \<Rightarrow> string" where
  "strip s = rev (dropWhile isspace_char (rev (dropWhile isspace_char s)))"

definition startswith :: "string \<Rightarrow> string \<Rightarrow> bool" where
  "startswith s p = (take (length p) s = p)"

fun contains :: "string \<Rightarrow> string \<Rightarrow> bool" where
  "contains sub [] = (sub = [])"
| "contains sub (c # cs) = (startswith (c # cs) sub \<or> contains sub cs)"

definition islower :: "string \<Rightarrow> bool" where
  "islower s = (list_ex islower_char s \<and> \<not> list_ex isupper_char s)"

definition isupper :: "string \<Rightarrow> bool" where
  "isupper s = (list_ex isupper_char s \<and> \<not> list_ex islower_char s)"

definition lower :: "string \<Rightarrow> string" where
  "lower s = map lower_char s"

section \<open>Complexity and quality scores\<close>

text \<open>The loop of \<open>analyze_code_complexity\<close> over the lines, with its counter.\<close>

fun count_comment_lines :: "string list \<Rightarrow> int \<Rightarrow> int" where
  "count_comment_lines [] complexity_score = complexity_score"
| "count_comment_lines (line # rest) complexity_score =
     count_comment_lines rest
       (if startswith (strip line) ''#'' then complexity_score + 1 else complexity_score)"

definition analyze_code_complexity :: "string \<Rightarrow> int" where
  "analyze_code_complexity code = count_comment_lines (split_nl code) 0"

definition analyze_code_quality :: "string \<Rightarrow> int" where
  "analyze_code_quality code =
     (let quality_score = 0;
          complexity_score = analyze_code_complexity code;
          quality_score = quality_score + complexity_score;
          quality_score = (if contains ''goto'' code then quality_score - 10 else quality_score);
          quality_score = (if contains ''magic_number'' code then quality_score - 5 else quality_score)
      in quality_score)"

section \<open>Properties of the scores\<close>

lemma count_comment_lines_eq:
  "count_comment_lines ls n =
     n + int (length (filter (\<lambda>line. startswith (strip line) ''#'') ls))"
  by (induction ls arbitrary: n) auto

lemma contains_iff: "contains sub s \<longleftrightarrow> (\<exists>p q. s = p @ sub @ q)"
proof (induction s)
  case Nil
  then show ?case by auto
next
  case (Cons c cs)
  show ?case
  proof
    assume "contains sub (c # cs)"
    then consider "startswith (c # cs) sub" | "contains sub cs" by auto
    then show "\<exists>p q. c # cs = p @ sub @ q"
    proof cases
      case 1
      then have "c # cs = [] @ sub @ drop (length sub) (c # cs)"
        unfolding startswith_def by (metis append_Nil append_take_drop_id)
      then show ?thesis by blast
    next
      case 2
      then obtain p q where "cs = p @ sub @ q" using Cons.IH by blast
      then have "c # cs = (c # p) @ sub @ q" by simp
      then show ?thesis by blast
    qed
  next
    assume "\<exists>p q. c # cs = p @ sub @ q"
    then obtain p q where pq: "c # cs = p @ sub @ q" by blast
    show "contains sub (c # cs)"
    proof (cases p)
      case Nil
      then have "startswith (c # cs) sub" using pq by (simp add: startswith_def)
      then show ?thesis by simp
    next
      case (Cons a p')
      then have "cs = p' @ sub @ q" using pq by simp
      then show ?thesis using Cons.IH by auto
    qed
  qed
qed

text \<open>The stripped form of a line starts with \<open>#\<close> exactly when the line is whitespace
  followed by \<open>#\<close>.\<close>

lemma dropWhile_snoc:
  "\<not> P c \<Longrightarrow> dropWhile P (xs @ [c]) = dropWhile P xs @ [c]"
  by (induction xs) auto

lemma strip_Cons:
  assumes "\<not> isspace_char c"
  shows "rev (dropWhile isspace_char (rev (c # cs))) = c # rev (dropWhile isspace_char (rev cs))"
  using assms by (simp add: dropWhile_snoc)

lemma comment_line_iff:
  "startswith (strip line) ''#'' \<longleftrightarrow>
     (\<exists>ws rest. line = ws @ ''#'' @ rest \<and> list_all isspace_char ws)"
proof
  assume a: "startswith (strip line) ''#''"
  define ws where "ws = takeWhile isspace_char line"
  define l' where "l' = dropWhile isspace_char line"
  have line: "line = ws @ l'" by (simp add: ws_def l'_def)
  have s: "strip line = rev (dropWhile isspace_char (rev l'))"
    by (simp add: strip_def l'_def)
  have "l' \<noteq> []"
  proof
    assume "l' = []"
    then have "strip line = []" using s by simp
    then show False using a by (simp add: startswith_def)
  qed
  then obtain c cs where l': "l' = c # cs" by (cases l') auto
  then have nsp: "\<not> isspace_char c"
    using hd_dropWhile [of isspace_char line] by (simp add: l'_def)
  have "strip line = c # rev (dropWhile isspace_char (rev cs))"
    using strip_Cons [OF nsp, of cs] s l' by simp
  then have "c = CHR ''#''" using a by (simp add: startswith_def)
  then have "line = ws @ ''#'' @ cs" using line l' by simp
  moreover have "list_all isspace_char ws"
    unfolding ws_def list_all_iff by (meson set_takeWhileD)
  ultimately show "\<exists>ws rest. line = ws @ ''#'' @ rest \<and> list_all isspace_char ws" by blast
next
  assume "\<exists>ws rest. line = ws @ ''#'' @ rest \<and> list_all isspace_char ws"
  then obtain ws rest where line: "line = ws @ ''#'' @ rest" and ws: "list_all isspace_char ws"
    by blast
  have nsp: "\<not> isspace_char CHR ''#''" by (simp add: isspace_char_def)
  have "dropWhile isspace_char line = CHR ''#'' # rest"
    using ws nsp by (simp add: line list_all_iff dropWhile_append2)
  then have "strip line = CHR ''#'' # rev (dropWhile isspace_char (rev rest))"
    using strip_Cons [OF nsp, of rest] by (simp add: strip_def)
  then show "startswith (strip line) ''#''" by (simp add: startswith_def)
qed

text \<open>
  C7. \<open>analyze_code_complexity\<close> returns the number of lines of the text (split at
  line feeds) whose stripped form starts with \<open>#\<close>, that is, by \<open>comment_line_iff\<close>,
  the lines made of whitespace followed by \<open>#\<close>; the result is never negative. The
  function is a total function of the text alone.
\<close>

theorem complexity_counts_comment_lines:
  "analyze_code_complexity code =
     int (length (filter (\<lambda>line. startswith (strip line) ''#'') (split_nl code)))
   \<and> 0 \<le> analyze_code_complexity code"
  by (simp add: analyze_code_complexity_def count_comment_lines_eq)

theorem complexity_counts_comment_lines_witness:
  "analyze_code_complexity (''x = 1'' @ [newline] @ ''  # a'' @ [newline] @ ''#b'' @ [newline]) = 2"
  using complexity_counts_comment_lines
    [of "''x = 1'' @ [newline] @ ''  # a'' @ [newline] @ ''#b'' @ [newline]"]
  by (simp add: newline_def startswith_def strip_def isspace_char_def)

text \<open>
  C1. \<open>analyze_code_quality\<close> is the complexity score, minus 10 when \<open>goto\<close> occurs
  somewhere in the text, minus 5 when \<open>magic_number\<close> occurs somewhere in the text;
  each penalty is applied once however often the substring occurs. The result can be
  negative (the witness evaluates to \<open>-13\<close>).
\<close>

theorem quality_score_formula:
  "analyze_code_quality code =
     analyze_code_complexity code
     - (if (\<exists>p q. code = p @ ''goto'' @ q) then 10 else 0)
     - (if (\<exists>p q. code = p @ ''magic_number'' @ q) then 5 else 0)"
  by (simp add: analyze_code_quality_def Let_def contains_iff)

theorem quality_score_formula_witness:
  "analyze_code_quality (''# goto goto'' @ [newline] @ ''  # magic_number'') = - 13"
proof -
  let ?code = "''# goto goto'' @ [newline] @ ''  # magic_number''"
  have g: "\<exists>p q. ?code = p @ ''goto'' @ q"
    using contains_iff [of "''goto''" ?code] by (simp add: startswith_def newline_def)
  have m: "\<exists>p q. ?code = p @ ''magic_number'' @ q"
    using contains_iff [of "''magic_number''" ?code] by (simp add: startswith_def newline_def)
  have c: "analyze_code_complexity ?code = 2"
    by (simp add: analyze_code_complexity_def newline_def startswith_def strip_def
        isspace_char_def)
  show ?thesis
    using quality_score_formula [of ?code] g m c by presburger
qed

text \<open>
  C9. The quality score never exceeds the complexity score: the two substring rules
  only subtract.
\<close>

theorem quality_le_complexity:
  "analyze_code_quality code \<le> analyze_code_complexity code"
  by (simp add: analyze_code_quality_def Let_def)

theorem quality_le_complexity_witness:
  "analyze_code_quality ''# goto'' \<le> 1 \<and> analyze_code_complexity ''# goto'' = 1"
proof -
  have c: "analyze_code_complexity ''# goto'' = 1"
    by (simp add: analyze_code_complexity_def newline_def startswith_def strip_def
        isspace_char_def)
  show ?thesis
    using quality_le_complexity [of "''# goto''"] c by simp
qed

section \<open>Line similarity: \<open>difflib.SequenceMatcher(None, a, b).ratio()\<close>\<close>

text \<open>
  Modelled from the spec: the similarity ratio is computed by Python's standard library
  (\<open>difflib\<close>), which is not among the repository's files. The spec (4.6) describes it
  as \<open>2 * M / T\<close>, \<open>M\<close> the total length of the matching blocks found by a greedy
  recursive longest-common-substring matcher and \<open>T\<close> the combined length of both
  strings. The definitions of this section spell that matcher out as CPython's
  \<open>Lib/difflib.py\<close> implements it, method by method (\<open>__chain_b\<close>,
  \<open>find_longest_match\<close>, \<open>get_matching_blocks\<close>, \<open>ratio\<close>, \<open>_calculate_ratio\<close>), for
  the call \<open>SequenceMatcher(None, a, b)\<close>: no junk predicate, \<open>autojunk\<close> on. Indices
  are natural numbers, as \<open>range\<close> and \<open>enumerate\<close> produce them. The ratio is the exact
  rational where Python computes the correctly rounded double of the same quotient;
  for two strings of combined length \<open>T\<close> an exact ratio above \<open>4/5\<close> is at least
  \<open>4/5 + 1/(5 * T)\<close>, so the comparison with \<open>0.8\<close> agrees with the one on doubles for
  every text that fits in memory.
\<close>

type_synonym match = "nat \<times> nat \<times> nat"

text \<open>\<open>__chain_b\<close>: the indices of each element of \<open>b\<close>, in increasing order; with
  \<open>autojunk\<close>, an element of a sequence of at least 200 elements that occurs more than
  \<open>n // 100 + 1\<close> times is popular and loses its entry. No element is junk.\<close>

definition b2j :: "string \<Rightarrow> char \<Rightarrow> nat list" where
  "b2j b elt =
     (let indices = filter (\<lambda>i. b ! i = elt) [0..<length b];
          n = length b;
          ntest = n div 100 + 1
      in if 200 \<le> n \<and> ntest < length indices then [] else indices)"

text \<open>\<open>j2len.get(j-1, 0)\<close>: the key \<open>-1\<close> is never present.\<close>

definition j2lenget :: "(nat \<rightharpoonup> nat) \<Rightarrow> nat \<Rightarrow> nat" where
  "j2lenget j2len j =
     (if j = 0 then 0 else (case j2len (j - 1) of None \<Rightarrow> 0 | Some k \<Rightarrow> k))"

text \<open>The inner loop of \<open>find_longest_match\<close> over the positions \<open>j\<close> of \<open>a[i]\<close> in \<open>b\<close>:
  \<open>continue\<close> below \<open>blo\<close>, \<open>break\<close> from \<open>bhi\<close> on. Python's \<open>i-k+1\<close> is written
  \<open>i + 1 - k\<close>, the same number since \<open>k \<le> i + 1\<close> and \<open>k \<le> j + 1\<close> here.\<close>

fun scan_row ::
  "nat \<Rightarrow> nat \<Rightarrow> nat \<Rightarrow> (nat \<rightharpoonup> nat) \<Rightarrow> nat list \<Rightarrow> match \<Rightarrow> (nat \<rightharpoonup> nat)
   \<Rightarrow> match \<times> (nat \<rightharpoonup> nat)" where
  "scan_row i blo bhi j2len [] best newj2len = (best, newj2len)"
| "scan_row i blo bhi j2len (j # js) (besti, bestj, bestsize) newj2len =
     (if j < blo then scan_row i blo bhi j2len js (besti, bestj, bestsize) newj2len
      else if bhi \<le> j then ((besti, bestj, bestsize), newj2len)
      else (let k = j2lenget j2len j + 1
            in scan_row i blo bhi j2len js
                 (if bestsize < k then (i + 1 - k, j + 1 - k, k) else (besti, bestj, bestsize))
                 (newj2len(j \<mapsto> k))))"

text \<open>The outer loop \<open>for i in range(alo, ahi)\<close>.\<close>

fun scan_rows ::
  "string \<Rightarrow> string \<Rightarrow> nat \<Rightarrow> nat \<Rightarrow> nat list \<Rightarrow> match \<Rightarrow> (nat \<rightharpoonup> nat) \<Rightarrow> match" where
  "scan_rows a b blo bhi [] best j2len = best"
| "scan_rows a b blo bhi (i # rest) best j2len =
     (case scan_row i blo bhi j2len (b2j b (a ! i)) best Map.empty of
        (best', newj2len) \<Rightarrow> scan_rows a b blo bhi rest best' newj2len)"

text \<open>The two loops that extend the best match at each end. The junk set is empty, so
  \<open>not isbjunk(...)\<close> holds throughout and the two later loops over junk never run.\<close>

function extend_left :: "string \<Rightarrow> string \<Rightarrow> nat \<Rightarrow> nat \<Rightarrow> match \<Rightarrow> match" where
  "extend_left a b alo blo (besti, bestj, bestsize) =
     (if alo < besti \<and> blo < bestj \<and> a ! (besti - 1) = b ! (bestj - 1)
      then extend_left a b alo blo (besti - 1, bestj - 1, bestsize + 1)
      else (besti, bestj, bestsize))"
  by pat_completeness auto
termination
  by (relation "measure (\<lambda>(a, b, alo, blo, besti, bestj, bestsize). besti)") auto

function extend_right :: "string \<Rightarrow> string \<Rightarrow> nat \<Rightarrow> nat \<Rightarrow> match \<Rightarrow> match" where
  "extend_right a b ahi bhi (besti, bestj, bestsize) =
     (if besti + bestsize < ahi \<and> bestj + bestsize < bhi
         \<and> a ! (besti + bestsize) = b ! (bestj + bestsize)
      then extend_right a b ahi bhi (besti, bestj, bestsize + 1)
      else (besti, bestj, bestsize))"
  by pat_completeness auto
termination
  by (relation "measure (\<lambda>(a, b, ahi, bhi, besti, bestj, bestsize). ahi - (besti + bestsize))")
    auto

declare extend_left.simps [simp del] extend_right.simps [simp del]

definition find_longest_match :: "string \<Rightarrow> string \<Rightarrow> nat \<Rightarrow> nat \<Rightarrow> nat \<Rightarrow> nat \<Rightarrow> match" where
  "find_longest_match a b alo ahi blo bhi =
     extend_right a b ahi bhi
       (extend_left a b alo blo
          (scan_rows a b blo bhi [alo..<ahi] (alo, blo, 0) Map.empty))"

text \<open>What \<open>get_matching_blocks\<close> relies on to stop: a non-empty match found in
  \<open>a[alo:ahi]\<close> lies inside that range.\<close>

definition inside :: "nat \<Rightarrow> nat \<Rightarrow> match \<Rightarrow> bool" where
  "inside alo ahi m =
     (case m of (besti, bestj, bestsize) \<Rightarrow>
        alo \<le> besti \<and> (bestsize = 0 \<longrightarrow> besti = alo) \<and> (0 < bestsize \<longrightarrow> besti + bestsize \<le> ahi))"

lemma j2lenget_le:
  assumes "\<And>j v. j2len j = Some v \<Longrightarrow> v \<le> n"
  shows "j2lenget j2len j \<le> n"
  using assms by (auto simp: j2lenget_def split: option.splits)

lemma scan_row_inside:
  assumes "scan_row i blo bhi j2len js best newj2len = (best', newj2len')"
    and "inside alo ahi best" and "alo \<le> i" and "i < ahi"
    and "\<And>j v. j2len j = Some v \<Longrightarrow> v \<le> i - alo"
    and "\<And>j v. newj2len j = Some v \<Longrightarrow> v \<le> i + 1 - alo"
  shows "inside alo ahi best' \<and> (\<forall>j v. newj2len' j = Some v \<longrightarrow> v \<le> i + 1 - alo)"
  using assms
proof (induction i blo bhi j2len js best newj2len rule: scan_row.induct)
  case (1 i blo bhi j2len best newj2len)
  from "1.prems"(1) have "best' = best" and "newj2len' = newj2len" by simp_all
  then show ?case using "1.prems"(2,6) by blast
next
  case (2 i blo bhi j2len j js besti bestj bestsize newj2len)
  show ?case
  proof (cases "j < blo")
    case True
    have run: "scan_row i blo bhi j2len js (besti, bestj, bestsize) newj2len = (best', newj2len')"
      using "2.prems"(1) True by simp
    show ?thesis
      by (rule "2.IH"(1) [OF True run "2.prems"(2,3,4,5,6)])
  next
    case low: False
    show ?thesis
    proof (cases "bhi \<le> j")
      case True
      from "2.prems"(1) low True
      have "best' = (besti, bestj, bestsize)" and "newj2len' = newj2len" by simp_all
      then show ?thesis using "2.prems"(2,6) by blast
    next
      case False
      define k where "k = j2lenget j2len j + 1"
      have "j2lenget j2len j \<le> i - alo"
        by (rule j2lenget_le) (rule "2.prems"(5))
      then have kle: "k \<le> i + 1 - alo" and kpos: "0 < k"
        using "2.prems"(3) by (simp_all add: k_def)
      have w: "inside alo ahi
          (if bestsize < k then (i + 1 - k, j + 1 - k, k) else (besti, bestj, bestsize))"
      proof (cases "bestsize < k")
        case True
        have "alo \<le> i + 1 - k" and "i + 1 - k + k \<le> ahi"
          using kle kpos "2.prems"(3,4) by arith+
        then show ?thesis using True kpos by (simp add: inside_def)
      next
        case False
        then show ?thesis using "2.prems"(2) by simp
      qed
      have m: "v \<le> i + 1 - alo" if "(newj2len(j \<mapsto> k)) j' = Some v" for j' v
      proof (cases "j' = j")
        case True
        then show ?thesis using that kle by simp
      next
        case False
        then show ?thesis using that "2.prems"(6) [of j' v] by simp
      qed
      have run: "scan_row i blo bhi j2len js
           (if bestsize < k then (i + 1 - k, j + 1 - k, k) else (besti, bestj, bestsize))
           (newj2len(j \<mapsto> k)) = (best', newj2len')"
        using "2.prems"(1) low False
        by (simp only: scan_row.simps if_False Let_def k_def)
      show ?thesis
        by (rule "2.IH"(2) [OF low False k_def run w "2.prems"(3,4,5) m])
    qed
  qed
qed

lemma scan_rows_inside:
  assumes "inside alo ahi best" and "alo \<le> i"
    and "\<And>j v. j2len j = Some v \<Longrightarrow> v \<le> i - alo"
  shows "inside alo ahi (scan_rows a b blo bhi [i..<ahi] best j2len)"
  using assms
proof (induction "ahi - i" arbitrary: i best j2len)
  case 0
  then show ?case by simp
next
  case (Suc n)
  then have lt: "i < ahi" by simp
  obtain best' newj2len where
    row: "scan_row i blo bhi j2len (b2j b (a ! i)) best Map.empty = (best', newj2len)"
    by (cases "scan_row i blo bhi j2len (b2j b (a ! i)) best Map.empty") auto
  have step: "inside alo ahi best' \<and> (\<forall>j v. newj2len j = Some v \<longrightarrow> v \<le> i + 1 - alo)"
    using scan_row_inside [OF row Suc.prems(1) Suc.prems(2) lt Suc.prems(3)] by simp
  have "inside alo ahi (scan_rows a b blo bhi [Suc i..<ahi] best' newj2len)"
  proof (rule Suc.hyps(1))
    show "n = ahi - Suc i" using Suc.hyps(2) by simp
    show "inside alo ahi best'" using step by simp
    show "alo \<le> Suc i" using Suc.prems(2) by simp
    show "\<And>j v. newj2len j = Some v \<Longrightarrow> v \<le> Suc i - alo" using step by simp
  qed
  then show ?case using lt row by (simp add: upt_conv_Cons)
qed

lemma extend_left_inside:
  "inside alo ahi m \<Longrightarrow> inside alo ahi (extend_left a b alo blo m)"
proof (induction a b alo blo m rule: extend_left.induct)
  case (1 a b alo blo besti bestj bestsize)
  show ?case
  proof (cases "alo < besti \<and> blo < bestj \<and> a ! (besti - 1) = b ! (bestj - 1)")
    case True
    have step: "extend_left a b alo blo (besti, bestj, bestsize) =
        extend_left a b alo blo (besti - 1, bestj - 1, bestsize + 1)"
      using True by (subst extend_left.simps) simp
    have "inside alo ahi (besti - 1, bestj - 1, bestsize + 1)"
      using True "1.prems" by (auto simp: inside_def)
    then show ?thesis using True "1.IH" step by simp
  next
    case False
    have "extend_left a b alo blo (besti, bestj, bestsize) = (besti, bestj, bestsize)"
      using False by (subst extend_left.simps) auto
    then show ?thesis using "1.prems" by simp
  qed
qed

lemma extend_right_inside:
  "inside alo ahi m \<Longrightarrow> inside alo ahi (extend_right a b ahi bhi m)"
proof (induction a b ahi bhi m rule: extend_right.induct)
  case (1 a b ahi bhi besti bestj bestsize)
  show ?case
  proof (cases "besti + bestsize < ahi \<and> bestj + bestsize < bhi
         \<and> a ! (besti + bestsize) = b ! (bestj + bestsize)")
    case True
    have step: "extend_right a b ahi bhi (besti, bestj, bestsize) =
        extend_right a b ahi bhi (besti, bestj, bestsize + 1)"
      using True by (subst extend_right.simps) simp
    have "inside alo ahi (besti, bestj, bestsize + 1)"
      using True "1.prems" by (auto simp: inside_def)
    then show ?thesis using True "1.IH" step by simp
  next
    case False
    have "extend_right a b ahi bhi (besti, bestj, bestsize) = (besti, bestj, bestsize)"
      using False by (subst extend_right.simps) auto
    then show ?thesis using "1.prems" by simp
  qed
qed

lemma find_longest_match_inside:
  "inside alo ahi (find_longest_match a b alo ahi blo bhi)"
  unfolding find_longest_match_def
  by (intro extend_right_inside extend_left_inside scan_rows_inside)
    (simp_all add: inside_def)

text \<open>The loop of \<open>get_matching_blocks\<close>. \<open>queue\<close> is used as a stack: \<open>pop()\<close> takes the
  element appended last, so the list is kept with that element at its head.\<close>

function get_blocks ::
  "string \<Rightarrow> string \<Rightarrow> (nat \<times> nat \<times> nat \<times> nat) list \<Rightarrow> match list \<Rightarrow> match list" where
  "get_blocks a b [] matching_blocks = matching_blocks"
| "get_blocks a b ((alo, ahi, blo, bhi) # queue) matching_blocks =
     (case find_longest_match a b alo ahi blo bhi of
        (i, j, k) \<Rightarrow>
          if k \<noteq> 0
          then get_blocks a b
                 ((if i + k < ahi \<and> j + k < bhi then [(i + k, ahi, j + k, bhi)] else []) @
                  (if alo < i \<and> blo < j then [(alo, i, blo, j)] else []) @ queue)
                 (matching_blocks @ [(i, j, k)])
          else get_blocks a b queue matching_blocks)"
  by pat_completeness auto
termination
proof (relation "measure (\<lambda>(a, b, queue, blocks).
          sum_list (map (\<lambda>(alo, ahi, blo, bhi). 2 * (ahi - alo) + 1) queue))", goal_cases)
  case 1
  then show ?case by simp
next
  case (2 a b alo ahi blo bhi queue matching_blocks x1 x2 x1a x2a)
  have "inside alo ahi (find_longest_match a b alo ahi blo bhi)"
    by (rule find_longest_match_inside)
  then show ?case using 2 by (auto simp: inside_def)
next
  case (3 a b alo ahi blo bhi queue matching_blocks x1 x2 x1a x2a)
  then show ?case by simp
qed

declare get_blocks.simps [simp del]

text \<open>The end of \<open>get_matching_blocks\<close>: the blocks are sorted, adjacent blocks are
  merged, and the sentinel \<open>(la, lb, 0)\<close> is appended.\<close>

fun collapse_adjacent :: "match list \<Rightarrow> match \<Rightarrow> match list \<Rightarrow> match list" where
  "collapse_adjacent [] (i1, j1, k1) non_adjacent =
     (if k1 \<noteq> 0 then non_adjacent @ [(i1, j1, k1)] else non_adjacent)"
| "collapse_adjacent ((i2, j2, k2) # rest) (i1, j1, k1) non_adjacent =
     (if i1 + k1 = i2 \<and> j1 + k1 = j2
      then collapse_adjacent rest (i1, j1, k1 + k2) non_adjacent
      else collapse_adjacent rest (i2, j2, k2)
             (if k1 \<noteq> 0 then non_adjacent @ [(i1, j1, k1)] else non_adjacent))"

definition get_matching_blocks :: "string \<Rightarrow> string \<Rightarrow> match list" where
  "get_matching_blocks a b =
     (let la = length a; lb = length b;
          matching_blocks = sort (get_blocks a b [(0, la, 0, lb)] []);
          non_adjacent = collapse_adjacent matching_blocks (0, 0, 0) []
      in non_adjacent @ [(la, lb, 0)])"

definition calculate_ratio :: "nat \<Rightarrow> nat \<Rightarrow> rat" where
  "calculate_ratio matches len = (if len \<noteq> 0 then 2 * of_nat matches / of_nat len else 1)"

definition ratio :: "string \<Rightarrow> string \<Rightarrow> rat" where
  "ratio a b =
     (let matches = sum_list (map (\<lambda>(i, j, k). k) (get_matching_blocks a b))
      in calculate_ratio matches (length a + length b))"

section \<open>Duplicate line detection\<close>

text \<open>The two loops of \<open>detect_repeated_code\<close>; the inner one runs over
  \<open>enumerate(lines[i+1:])\<close>. The comparison \<open>similarity > 0.8\<close> is made on the exact
  quotient.\<close>

fun inner_loop :: "nat \<Rightarrow> string \<Rightarrow> (nat \<times> string) list \<Rightarrow> (nat \<times> nat) list \<Rightarrow> (nat \<times> nat) list" where
  "inner_loop i line1 [] repeated_code = repeated_code"
| "inner_loop i line1 ((j, line2) # rest) repeated_code =
     (let similarity = ratio line1 line2
      in inner_loop i line1 rest
           (if 8 / 10 < similarity then repeated_code @ [(i, j + i + 1)] else repeated_code))"

fun outer_loop :: "string list \<Rightarrow> (nat \<times> string) list \<Rightarrow> (nat \<times> nat) list \<Rightarrow> (nat \<times> nat) list" where
  "outer_loop lines [] repeated_code = repeated_code"
| "outer_loop lines ((i, line1) # rest) repeated_code =
     outer_loop lines rest (inner_loop i line1 (enumerate 0 (drop (i + 1) lines)) repeated_code)"

definition detect_repeated_code :: "string \<Rightarrow> (nat \<times> nat) list" where
  "detect_repeated_code code =
     (let lines = split_nl code; repeated_code = []
      in outer_loop lines (enumerate 0 lines) repeated_code)"

section \<open>Properties of the duplicate line detector\<close>

lemma inner_loop_eq:
  "inner_loop i line1 ps acc =
     acc @ concat (map (\<lambda>(j, line2). if 8 / 10 < ratio line1 line2 then [(i, j + i + 1)] else []) ps)"
  by (induction ps arbitrary: acc) (auto simp: Let_def)

lemma inner_loop_acc:
  "inner_loop i line1 ps acc = acc @ inner_loop i line1 ps []"
  by (simp add: inner_loop_eq)

lemma outer_loop_eq:
  "outer_loop lines ps acc =
     acc @ concat (map (\<lambda>(i, line1). inner_loop i line1 (enumerate 0 (drop (i + 1) lines)) []) ps)"
proof (induction ps arbitrary: acc)
  case Nil
  then show ?case by simp
next
  case (Cons p ps)
  obtain i line1 where p: "p = (i, line1)" by (cases p)
  show ?case
    unfolding p by (simp add: Cons.IH inner_loop_acc [of _ _ _ acc])
qed

lemma map_enumerate_nth:
  "map f (enumerate 0 xs) = map (\<lambda>i. f (i, xs ! i)) [0..<length xs]"
  by (rule nth_equalityI) (simp_all add: nth_enumerate_eq)

lemma map_shift_upt:
  "map (\<lambda>j. g (j + k)) [0..<n - k] = map g [k..<n]"
proof (cases "k \<le> n")
  case True
  have "map g [k..<n] = map g (map (\<lambda>j. j + k) [0..<n - k])"
    using True by (simp add: map_add_upt)
  then show ?thesis by (simp add: comp_def)
next
  case False
  then show ?thesis by simp
qed

lemma inner_row_eq:
  assumes "i < length lines"
  shows "inner_loop i line1 (enumerate 0 (drop (Suc i) lines)) [] =
     concat (map (\<lambda>j. if 8 / 10 < ratio line1 (lines ! j) then [(i, j)] else [])
               [Suc i..<length lines])"
proof -
  let ?g = "\<lambda>j. if 8 / 10 < ratio line1 (lines ! j) then [(i, j)] else []"
  have "map (\<lambda>(j, line2). if 8 / 10 < ratio line1 line2 then [(i, j + i + 1)] else [])
          (enumerate 0 (drop (Suc i) lines))
        = map (\<lambda>j. ?g (j + Suc i)) [0..<length lines - Suc i]"
    using assms by (simp add: map_enumerate_nth add.commute)
  also have "\<dots> = map ?g [Suc i..<length lines]"
    by (rule map_shift_upt)
  finally show ?thesis by (simp add: inner_loop_eq)
qed

lemma detect_repeated_code_eq:
  "detect_repeated_code code =
     (let lines = split_nl code; n = length lines
      in [(i, j). i \<leftarrow> [0..<n], j \<leftarrow> [i + 1..<n], 8 / 10 < ratio (lines ! i) (lines ! j)])"
proof -
  let ?lines = "split_nl code"
  have "map (\<lambda>(i, line1). inner_loop i line1 (enumerate 0 (drop (i + 1) ?lines)) [])
          (enumerate 0 ?lines)
        = map (\<lambda>i. concat (map (\<lambda>j. if 8 / 10 < ratio (?lines ! i) (?lines ! j) then [(i, j)] else [])
               [i + 1..<length ?lines])) [0..<length ?lines]"
    by (simp add: map_enumerate_nth inner_row_eq cong: map_cong)
  then show ?thesis
    by (simp add: detect_repeated_code_def outer_loop_eq Let_def)
qed

lemma ratio_empty: "ratio [] [] = 1"
  by code_simp

text \<open>
  C4. \<open>detect_repeated_code\<close> splits the text at line feeds (empty lines kept) and
  returns exactly the index pairs \<open>(i, j)\<close> with \<open>i < j\<close> whose lines have a similarity
  ratio above 0.8, the outer index ascending and, for each, the inner index ascending.
  On \<open>abc\<close>, line feed, \<open>abc\<close> it returns \<open>[(0, 1)]\<close>; on \<open>abc\<close>, line feed, \<open>xyz\<close> it
  returns the empty list.
\<close>

theorem detect_repeated_code_pairs:
  "detect_repeated_code code =
     (let lines = split_nl code; n = length lines
      in [(i, j). i \<leftarrow> [0..<n], j \<leftarrow> [i + 1..<n], 8 / 10 < ratio (lines ! i) (lines ! j)])
   \<and> detect_repeated_code (''abc'' @ [newline] @ ''abc'') = [(0, 1)]
   \<and> detect_repeated_code (''abc'' @ [newline] @ ''xyz'') = []"
proof (intro conjI)
  show "detect_repeated_code code =
     (let lines = split_nl code; n = length lines
      in [(i, j). i \<leftarrow> [0..<n], j \<leftarrow> [i + 1..<n], 8 / 10 < ratio (lines ! i) (lines ! j)])"
    by (rule detect_repeated_code_eq)
  show "detect_repeated_code (''abc'' @ [newline] @ ''abc'') = [(0, 1)]"
    by code_simp
  show "detect_repeated_code (''abc'' @ [newline] @ ''xyz'') = []"
    by code_simp
qed

theorem detect_repeated_code_pairs_witness:
  "detect_repeated_code (''ab'' @ [newline] @ ''x'' @ [newline] @ ''ab'' @ [newline] @ ''ab'')
     = [(0, 2), (0, 3), (2, 3)]"
proof -
  let ?code = "''ab'' @ [newline] @ ''x'' @ [newline] @ ''ab'' @ [newline] @ ''ab''"
  have r: "ratio ''ab'' ''ab'' = 1" "ratio ''ab'' ''x'' = 0" "ratio ''x'' ''ab'' = 0"
    by code_simp+
  show ?thesis
    using detect_repeated_code_pairs [of ?code] by (simp add: newline_def r)
qed

text \<open>
  C10. In a text with two or more empty lines, every pair \<open>i < j\<close> of indices of empty
  lines is reported: the ratio of two empty strings is 1.
\<close>

theorem empty_lines_are_duplicates:
  assumes "i < j" and "j < length (split_nl code)"
    and "split_nl code ! i = []" and "split_nl code ! j = []"
  shows "(i, j) \<in> set (detect_repeated_code code)"
  using assms by (auto simp: detect_repeated_code_eq Let_def ratio_empty)

theorem empty_lines_are_duplicates_witness:
  "(1, 3) \<in> set (detect_repeated_code (''a'' @ [newline, newline] @ ''b'' @ [newline]))"
proof -
  let ?code = "''a'' @ [newline, newline] @ ''b'' @ [newline]"
  show ?thesis
    using empty_lines_are_duplicates [of 1 3 ?code] by (simp add: newline_def)
qed


section \<open>Exceptions\<close>

text \<open>The exceptions the program can end with. A \<open>SyntaxError\<close> carries its message and
  position (line and offset).\<close>

datatype syntax_error = SyntaxError string int int

datatype error =
    SyntaxFailure syntax_error
  | IndexError
  | AttributeError
  | ZeroDivisionError
  | OverflowError

section \<open>Syntax trees\<close>

text \<open>
  The nodes of Python's \<open>ast\<close> module, as far as the program tells them apart. A
  \<open>FunctionDef\<close> and a \<open>ClassDef\<close> keep their child nodes in the order of the node's
  fields: those before the body (\<open>args\<close>; \<open>bases\<close> and \<open>keywords\<close>), the body, and those
  after it (\<open>decorator_list\<close>, \<open>returns\<close>). \<open>DocExpr l d\<close> is an expression statement
  whose value is a string constant, \<open>d\<close> being the text \<open>ast.get_docstring\<close> makes of it.
  \<open>Other\<close> stands for every other kind of node, with its child nodes in field order;
  an \<open>AsyncFunctionDef\<close> is one of them, as it is no instance of \<open>FunctionDef\<close>. The
  context node under a \<open>Name\<close> and the constant under a \<open>DocExpr\<close> are left out: they
  have no children and the program has no case for them. The integer is the node's
  \<open>lineno\<close>; a \<open>Module\<close> has none.

  The program assigns to \<open>node.name\<close> of a \<open>FunctionDef\<close> and to \<open>node.id\<close> of a \<open>Name\<close>
  while it walks the tree. These two attributes live in a store, a map from the
  node's address to the current string, and the tree holds the address; everything
  else of a tree is never assigned to.
\<close>

type_synonym addr = nat

type_synonym store = "addr \<Rightarrow> string"

datatype node =
    Module "node list"
  | FunctionDef int addr "node list" "node list" "node list"
  | ClassDef int string "node list" "node list" "node list"
  | Name int addr
  | DocExpr int string
  | Other int "node list"

fun lineno :: "node \<Rightarrow> int option" where
  "lineno (Module body) = None"
| "lineno (FunctionDef l a before body after) = Some l"
| "lineno (ClassDef l name before body after) = Some l"
| "lineno (Name l a) = Some l"
| "lineno (DocExpr l d) = Some l"
| "lineno (Other l children) = Some l"

text \<open>\<open>ast.iter_child_nodes\<close> and \<open>ast.walk\<close>: the latter takes nodes from the left of a
  queue and appends their children to its right, so it yields the nodes breadth first.\<close>

fun iter_child_nodes :: "node \<Rightarrow> node list" where
  "iter_child_nodes (Module body) = body"
| "iter_child_nodes (FunctionDef l a before body after) = before @ body @ after"
| "iter_child_nodes (ClassDef l name before body after) = before @ body @ after"
| "iter_child_nodes (Name l a) = []"
| "iter_child_nodes (DocExpr l d) = []"
| "iter_child_nodes (Other l children) = children"

lemma size_iter_child_nodes:
  "sum_list (map (\<lambda>c. Suc (size c)) (iter_child_nodes n)) \<le> size n"
  by (cases n) (simp_all add: size_list_conv_sum_list sum_list_Suc comp_def)

function walk_queue :: "node list \<Rightarrow> node list" where
  "walk_queue [] = []"
| "walk_queue (node # todo) = node # walk_queue (todo @ iter_child_nodes node)"
  by pat_completeness auto
termination
proof (relation "measure (\<lambda>todo. sum_list (map (\<lambda>c. Suc (size c)) todo))", goal_cases)
  case 1
  then show ?case by simp
next
  case (2 node todo)
  then show ?case using size_iter_child_nodes [of node] by simp
qed

definition walk :: "node \<Rightarrow> node list" where
  "walk tree = walk_queue [tree]"

section \<open>True division of integers\<close>

text \<open>
  Python's \<open>a / b\<close> for two non-negative integers returns a double: the quotient rounded
  to the nearest value of the binary64 format, a tie going to the even significand,
  subnormal values included; it raises \<open>OverflowError\<close> when the rounded quotient would
  reach \<open>2 ** 1024\<close> and \<open>ZeroDivisionError\<close> when \<open>b\<close> is 0. A double is represented by
  the rational number it denotes. \<open>floor_log2 a b\<close> is the exponent \<open>e\<close> with
  \<open>2 ** e \<le> a / b < 2 ** (e + 1)\<close>; the doubles of that binade, and the subnormal ones
  below \<open>2 ** -1022\<close>, are the multiples of \<open>ulp\<close>.
\<close>

definition round_half_even :: "rat \<Rightarrow> int" where
  "round_half_even x =
     (let f = \<lfloor>x\<rfloor>; r = x - of_int f
      in if r < 1 / 2 then f
         else if 1 / 2 < r then f + 1
         else if even f then f else f + 1)"

definition floor_log2 :: "nat \<Rightarrow> nat \<Rightarrow> int" where
  "floor_log2 a b =
     (let d = int (floorlog 2 a) - int (floorlog 2 b)
      in if 2 powi d \<le> (of_nat a / of_nat b :: rat) then d else d - 1)"

definition nearest_double :: "nat \<Rightarrow> nat \<Rightarrow> rat" where
  "nearest_double a b =
     (let e = max (floor_log2 a b) (- 1022);
          ulp = 2 powi (e - 52)
      in of_int (round_half_even (of_nat a / of_nat b / ulp)) * ulp)"

definition true_divide :: "nat \<Rightarrow> nat \<Rightarrow> error + rat" where
  "true_divide a b =
     (if b = 0 then Inl ZeroDivisionError
      else if a = 0 then Inr 0
      else (let r = nearest_double a b
            in if 2 powi 1024 \<le> r then Inl OverflowError else Inr r))"

section \<open>Properties of true division\<close>

lemma round_half_even_near: "\<bar>of_int (round_half_even x) - x\<bar> \<le> 1 / 2"
proof -
  have "of_int \<lfloor>x\<rfloor> \<le> x" and "x < of_int \<lfloor>x\<rfloor> + 1" by linarith+
  then show ?thesis
    by (auto simp: round_half_even_def Let_def abs_le_iff)
qed

lemma round_half_even_ge_floor: "\<lfloor>x\<rfloor> \<le> round_half_even x"
  by (simp add: round_half_even_def Let_def)

lemma floor_log2_bounds:
  assumes "0 < a" and "0 < b"
  shows "2 powi floor_log2 a b \<le> (of_nat a / of_nat b :: rat)"
    and "(of_nat a / of_nat b :: rat) < 2 powi (floor_log2 a b + 1)"
proof -
  define la where "la = floorlog 2 a"
  define lb where "lb = floorlog 2 b"
  define q :: rat where "q = of_nat a / of_nat b"
  have la: "2 ^ (la - 1) \<le> a" "a < 2 ^ la" and lb: "2 ^ (lb - 1) \<le> b" "b < 2 ^ lb"
    using floorlog_bounds [of a 2] floorlog_bounds [of b 2] assms by (simp_all add: la_def lb_def)
  have pos: "0 < la" "0 < lb"
    using assms by (simp_all add: la_def lb_def floorlog_def)
  have bq: "(0::rat) < of_nat b" using assms by simp
  have a_lo: "(2::rat) ^ (la - 1) \<le> of_nat a" and a_hi: "(of_nat a :: rat) < 2 ^ la"
    using la by (metis of_nat_le_iff of_nat_numeral of_nat_power, metis of_nat_less_iff of_nat_numeral of_nat_power)
  have b_lo: "(2::rat) ^ (lb - 1) \<le> of_nat b" and b_hi: "(of_nat b :: rat) < 2 ^ lb"
    using lb by (metis of_nat_le_iff of_nat_numeral of_nat_power, metis of_nat_less_iff of_nat_numeral of_nat_power)
  have pw: "(2::rat) powi (int m - int n) = 2 ^ m / 2 ^ n" for m n
    by (simp add: power_int_diff)
  have upper: "q < 2 powi (int la - int lb + 1)"
  proof -
    have "q < 2 ^ la / 2 ^ (lb - 1)"
      unfolding q_def by (rule frac_less) (use a_hi b_lo in simp_all)
    also have "\<dots> = 2 powi (int la - int (lb - 1))" by (simp add: pw)
    also have "int la - int (lb - 1) = int la - int lb + 1" using pos by simp
    finally show ?thesis .
  qed
  have lower: "2 powi (int la - int lb - 1) \<le> q"
  proof -
    have "int la - int lb - 1 = int (la - 1) - int lb"
      using pos by simp
    then have "(2::rat) powi (int la - int lb - 1) = 2 powi (int (la - 1) - int lb)"
      by (rule arg_cong)
    also have "\<dots> = 2 ^ (la - 1) / 2 ^ lb" by (simp add: pw)
    also have "\<dots> \<le> q"
      unfolding q_def by (rule frac_le) (use a_lo b_hi bq in simp_all)
    finally show ?thesis .
  qed
  show "2 powi floor_log2 a b \<le> (of_nat a / of_nat b :: rat)"
    using lower by (auto simp: floor_log2_def Let_def la_def lb_def q_def)
  show "(of_nat a / of_nat b :: rat) < 2 powi (floor_log2 a b + 1)"
    using upper by (auto simp: floor_log2_def Let_def la_def lb_def q_def not_le)
qed

lemma nearest_double_near:
  assumes "0 < b" and "b \<le> a"
  shows "0 < nearest_double a b"
    and "\<bar>nearest_double a b - of_nat a / of_nat b\<bar> \<le> of_nat a / of_nat b / 2 ^ 53"
proof -
  define q :: rat where "q = of_nat a / of_nat b"
  define e where "e = floor_log2 a b"
  define ulp :: rat where "ulp = 2 powi (e - 52)"
  define m where "m = round_half_even (q / ulp)"
  have apos: "0 < a" using assms by simp
  have q1: "1 \<le> q"
    unfolding q_def using assms by simp
  have lo: "2 powi e \<le> q" and hi: "q < 2 powi (e + 1)"
    using floor_log2_bounds [OF apos assms(1)] by (simp_all add: q_def e_def)
  have e0: "0 \<le> e"
  proof (rule ccontr)
    assume "\<not> 0 \<le> e"
    then have "e + 1 \<le> 0" by simp
    then have "(2::rat) powi (e + 1) \<le> 2 powi 0"
      by (intro power_int_increasing) simp_all
    then show False using hi q1 by simp
  qed
  have nd: "nearest_double a b = of_int m * ulp"
    using e0 by (simp add: nearest_double_def Let_def m_def ulp_def e_def q_def max_def)
  have ulp_pos: "0 < ulp" by (simp add: ulp_def)
  have ulp_eq: "ulp * 2 ^ 52 = 2 powi e"
    by (simp add: ulp_def power_int_diff)
  have x_lo: "2 ^ 52 \<le> q / ulp"
  proof -
    have "ulp * 2 ^ 52 \<le> q" using lo ulp_eq by simp
    then show ?thesis using ulp_pos by (simp add: pos_le_divide_eq mult.commute)
  qed
  have "(2::int) ^ 52 \<le> \<lfloor>q / ulp\<rfloor>"
    using x_lo by (simp add: le_floor_iff)
  then have m_lo: "2 ^ 52 \<le> m"
    unfolding m_def by (rule order_trans) (rule round_half_even_ge_floor)
  have "(0::int) < 2 ^ 52" by simp
  then have "0 < m" using m_lo by (rule less_le_trans)
  then show "0 < nearest_double a b"
    using ulp_pos by (simp add: nd)
  have "\<bar>of_int m - q / ulp\<bar> \<le> 1 / 2"
    unfolding m_def by (rule round_half_even_near)
  then have "\<bar>of_int m - q / ulp\<bar> * ulp \<le> 1 / 2 * ulp"
    using ulp_pos by (intro mult_right_mono) simp_all
  moreover have "\<bar>of_int m - q / ulp\<bar> * ulp = \<bar>of_int m * ulp - q\<bar>"
  proof -
    have "(of_int m - q / ulp) * ulp = of_int m * ulp - q"
      using ulp_pos by (simp add: left_diff_distrib)
    then have "\<bar>of_int m * ulp - q\<bar> = \<bar>of_int m - q / ulp\<bar> * \<bar>ulp\<bar>"
      by (metis abs_mult)
    then show ?thesis using ulp_pos by simp
  qed
  ultimately have near: "\<bar>of_int m * ulp - q\<bar> \<le> ulp / 2" by simp
  have "ulp / 2 = 2 powi e / 2 ^ 53"
    using ulp_eq [symmetric] by simp
  also have "\<dots> \<le> q / 2 ^ 53"
    using lo by (simp add: divide_right_mono)
  finally show "\<bar>nearest_double a b - of_nat a / of_nat b\<bar> \<le> of_nat a / of_nat b / 2 ^ 53"
    using near by (simp add: nd q_def)
qed

lemma true_divide_not_zero:
  assumes "0 < b" and "b \<le> a"
  shows "true_divide a b \<noteq> Inr 0"
  using assms nearest_double_near(1) [OF assms]
  by (auto simp: true_divide_def Let_def)

lemma true_divide_near:
  assumes "0 < b" and "b \<le> a" and "(of_nat a :: rat) < 2 ^ 1023 * of_nat b"
  shows "\<exists>r. true_divide a b = Inr r
             \<and> \<bar>r - of_nat a / of_nat b\<bar> \<le> of_nat a / of_nat b / 2 ^ 53"
proof -
  define q :: rat where "q = of_nat a / of_nat b"
  define r where "r = nearest_double a b"
  have near: "\<bar>r - q\<bar> \<le> q / 2 ^ 53"
    using nearest_double_near(2) [OF assms(1,2)] by (simp add: r_def q_def)
  have q_hi: "q < 2 ^ 1023"
    unfolding q_def using assms(1,3) by (simp add: pos_divide_less_eq)
  have q_pos: "0 \<le> q" by (simp add: q_def)
  have small: "q / 2 ^ 53 \<le> q"
    using q_pos by (simp add: field_simps)
  have "r - q \<le> q / 2 ^ 53"
    using near by (rule order_trans [OF abs_ge_self])
  then have "r \<le> q + q" using small by linarith
  also have "\<dots> < 2 ^ 1023 + 2 ^ 1023" using q_hi by simp
  also have "\<dots> = (2::rat) ^ 1024" by simp
  finally have "\<not> 2 powi 1024 \<le> r" by simp
  then have "true_divide a b = Inr r"
    using assms(1,2) by (simp add: true_divide_def Let_def r_def)
  then show ?thesis using near by (simp add: q_def)
qed

section \<open>Average function length\<close>

text \<open>The loop of \<open>calculate_average_function_length\<close> with its list, and the final
  quotient \<open>sum(function_lengths) / len(function_lengths)\<close>, a double, or the integer 0
  when the list is empty. The result is the number returned, as a rational.\<close>

fun collect_function_lengths :: "node list \<Rightarrow> nat list \<Rightarrow> nat list" where
  "collect_function_lengths [] function_lengths = function_lengths"
| "collect_function_lengths (FunctionDef l a before body after # rest) function_lengths =
     collect_function_lengths rest (function_lengths @ [length body])"
| "collect_function_lengths (node # rest) function_lengths =
     collect_function_lengths rest function_lengths"

definition calculate_average_function_length :: "node \<Rightarrow> error + rat" where
  "calculate_average_function_length tree =
     (let function_lengths = collect_function_lengths (walk tree) []
      in if function_lengths \<noteq> []
         then true_divide (sum_list function_lengths) (length function_lengths)
         else Inr 0)"

text \<open>The \<open>FunctionDef\<close> nodes of a tree with the number of statements of each body, and
  what the grammar guarantees of a parsed tree: no function body is empty.\<close>

fun is_FunctionDef :: "node \<Rightarrow> bool" where
  "is_FunctionDef (FunctionDef l a before body after) = True"
| "is_FunctionDef node = False"

fun body_length :: "node \<Rightarrow> nat" where
  "body_length (Module body) = length body"
| "body_length (FunctionDef l a before body after) = length body"
| "body_length (ClassDef l name before body after) = length body"
| "body_length node = 0"

definition function_defs :: "node \<Rightarrow> node list" where
  "function_defs tree = filter is_FunctionDef (walk tree)"

definition function_bodies_nonempty :: "node \<Rightarrow> bool" where
  "function_bodies_nonempty tree = list_all (\<lambda>f. 0 < body_length f) (function_defs tree)"

text \<open>The exact arithmetic mean of the body lengths of the \<open>FunctionDef\<close> nodes.\<close>

definition mean_body_length :: "node \<Rightarrow> rat" where
  "mean_body_length tree =
     of_nat (sum_list (map body_length (function_defs tree)))
     / of_nat (length (function_defs tree))"

section \<open>Properties of the average function length\<close>

lemma collect_function_lengths_eq:
  "collect_function_lengths nodes acc = acc @ map body_length (filter is_FunctionDef nodes)"
  by (induction nodes acc rule: collect_function_lengths.induct) simp_all

lemma average_eq:
  "calculate_average_function_length tree =
     (if function_defs tree = [] then Inr 0
      else true_divide (sum_list (map body_length (function_defs tree)))
             (length (function_defs tree)))"
  by (simp add: calculate_average_function_length_def collect_function_lengths_eq
      function_defs_def)

lemma length_le_sum_list:
  "list_all (\<lambda>x. 0 < f x) xs \<Longrightarrow> length xs \<le> sum_list (map f xs :: nat list)"
  by (induction xs) auto

text \<open>
  C8, as stated, fails: for a tree with three functions whose bodies hold 1, 1 and 2
  statements the arithmetic mean is \<open>4/3\<close>, and the code returns the double next to it,
  \<open>6004799503160661 / 2 ** 52\<close>, printed as \<open>1.3333333333333333\<close>.
\<close>

theorem average_is_not_the_exact_mean:
  "calculate_average_function_length
     (Module [FunctionDef 1 0 [Other 1 []] [Other 1 []] [],
              FunctionDef 2 2 [Other 2 []] [Other 2 []] [],
              FunctionDef 3 3 [Other 3 []] [Other 4 [], Other 5 []] []])
   = Inr (6004799503160661 / 4503599627370496)
   \<and> mean_body_length
     (Module [FunctionDef 1 0 [Other 1 []] [Other 1 []] [],
              FunctionDef 2 2 [Other 2 []] [Other 2 []] [],
              FunctionDef 3 3 [Other 3 []] [Other 4 [], Other 5 []] []])
   = 4 / 3
   \<and> (6004799503160661 / 4503599627370496 :: rat) \<noteq> 4 / 3"
  by code_simp

text \<open>
  C8, amended. For a tree whose function bodies are not empty, as the grammar has it,
  \<open>calculate_average_function_length\<close> returns 0 when the tree has no \<open>FunctionDef\<close> node and
  otherwise the true division of the sum of the numbers of immediate body statements
  of the \<open>FunctionDef\<close> nodes (nested ones counted as nodes of their own) by the number
  of these nodes, that is, their arithmetic mean rounded to the nearest double; the
  result is 0 exactly when the tree has no \<open>FunctionDef\<close> node; and when the sum is below
  \<open>2 ** 1023\<close> the call returns a number that differs from the arithmetic mean by at most
  the mean times \<open>2 ** -53\<close>.
\<close>

theorem average_function_length_rounded_mean:
  assumes "function_bodies_nonempty tree"
  shows "calculate_average_function_length tree =
           (if function_defs tree = [] then Inr 0
            else true_divide (sum_list (map body_length (function_defs tree)))
                   (length (function_defs tree)))
         \<and> (calculate_average_function_length tree = Inr 0 \<longleftrightarrow> function_defs tree = [])
         \<and> (function_defs tree \<noteq> [] \<and> sum_list (map body_length (function_defs tree)) < 2 ^ 1023
              \<longrightarrow> (\<exists>r. calculate_average_function_length tree = Inr r
                       \<and> \<bar>r - mean_body_length tree\<bar> \<le> mean_body_length tree / 2 ^ 53))"
proof (cases "function_defs tree = []")
  case True
  then show ?thesis by (simp add: average_eq)
next
  case False
  define total where "total = sum_list (map body_length (function_defs tree))"
  define n where "n = length (function_defs tree)"
  have n: "0 < n" using False by (simp add: n_def)
  have le: "n \<le> total"
    unfolding n_def total_def
    using assms unfolding function_bodies_nonempty_def by (rule length_le_sum_list)
  have avg: "calculate_average_function_length tree = true_divide total n"
    using False by (simp add: average_eq total_def n_def)
  have nz: "calculate_average_function_length tree \<noteq> Inr 0"
    unfolding avg using n le by (rule true_divide_not_zero)
  have near: "\<exists>r. calculate_average_function_length tree = Inr r
      \<and> \<bar>r - mean_body_length tree\<bar> \<le> mean_body_length tree / 2 ^ 53"
    if "total < 2 ^ 1023"
  proof -
    have "(of_nat total :: rat) < 2 ^ 1023"
      using that by (metis of_nat_less_iff of_nat_numeral of_nat_power)
    also have "\<dots> \<le> 2 ^ 1023 * of_nat n"
      using n by simp
    finally have "(of_nat total :: rat) < 2 ^ 1023 * of_nat n" .
    then show ?thesis
      using true_divide_near [OF n le] by (simp add: avg mean_body_length_def total_def n_def)
  qed
  show ?thesis
    using False nz near avg by (simp add: total_def n_def)
qed

theorem average_function_length_rounded_mean_witness:
  "calculate_average_function_length
     (Module [FunctionDef 1 0 [Other 1 []] [Other 2 [], FunctionDef 3 2 [] [Other 4 []] []] [],
              Other 5 [Name 5 3]]) = Inr (3 / 2)
   \<and> (\<exists>r. calculate_average_function_length
          (Module [FunctionDef 1 0 [Other 1 []] [Other 2 [], FunctionDef 3 2 [] [Other 4 []] []] [],
                   Other 5 [Name 5 3]]) = Inr r
          \<and> \<bar>r - 3 / 2\<bar> \<le> 3 / 2 / 2 ^ 53)"
proof -
  let ?tree = "Module [FunctionDef 1 0 [Other 1 []] [Other 2 [], FunctionDef 3 2 [] [Other 4 []] []] [],
                       Other 5 [Name 5 3]]"
  have fs: "function_defs ?tree =
      [FunctionDef 1 0 [Other 1 []] [Other 2 [], FunctionDef 3 2 [] [Other 4 []] []] [],
       FunctionDef 3 2 [] [Other 4 []] []]"
    by code_simp
  have h: "function_bodies_nonempty ?tree"
    by code_simp
  have d: "true_divide 3 2 = Inr (3 / 2)"
    by code_simp
  have m: "mean_body_length ?tree = 3 / 2"
    by (simp add: mean_body_length_def fs)
  have s: "sum_list (map body_length (function_defs ?tree)) = 3"
    "length (function_defs ?tree) = 2"
    by (simp_all add: fs)
  have c1: "calculate_average_function_length ?tree = true_divide 3 2"
    using average_function_length_rounded_mean [OF h, THEN conjunct1] unfolding s
    by (simp add: fs)
  have c3: "\<exists>r. calculate_average_function_length ?tree = Inr r
             \<and> \<bar>r - mean_body_length ?tree\<bar> \<le> mean_body_length ?tree / 2 ^ 53"
    using average_function_length_rounded_mean [OF h, THEN conjunct2, THEN conjunct2]
    unfolding s by (simp add: fs)
  show ?thesis
    using c1 c3 unfolding d m by simp
qed

section \<open>Naming conventions\<close>

text \<open>
  \<open>re.match(r'^[a-zA-Z_][a-zA-Z0-9_]*$', name)\<close>: \<open>$\<close> matches at the end of the string
  and also just before a line feed that ends it.
\<close>

definition identifier_start :: "char \<Rightarrow> bool" where
  "identifier_start c =
     (let k = (of_char c :: nat)
      in (97 \<le> k \<and> k \<le> 122) \<or> (65 \<le> k \<and> k \<le> 90) \<or> k = 95)"

definition identifier_char :: "char \<Rightarrow> bool" where
  "identifier_char c =
     (let k = (of_char c :: nat)
      in (97 \<le> k \<and> k \<le> 122) \<or> (65 \<le> k \<and> k \<le> 90) \<or> (48 \<le> k \<and> k \<le> 57) \<or> k = 95)"

definition re_match_identifier :: "string \<Rightarrow> bool" where
  "re_match_identifier s =
     (case s of
        [] \<Rightarrow> False
      | c # cs \<Rightarrow>
          identifier_start c
          \<and> (list_all identifier_char cs
             \<or> (cs \<noteq> [] \<and> last cs = newline \<and> list_all identifier_char (butlast cs))))"

text \<open>
  \<open>compile(tree, filename='', mode='exec')\<close> is a builtin: it returns a code object or
  raises \<open>SyntaxError\<close>. Which trees it rejects is a parameter of the model, a function
  from the tree and the current store to the error raised, if any; the code object it
  returns is represented by the tree and the store it was built from.
\<close>

type_synonym compiler = "node \<Rightarrow> store \<Rightarrow> syntax_error option"

datatype code_object = CodeObject node store

record naming_state =
  names :: store
  violations :: "string list"
  modified_code :: "code_object option"

definition quote :: char where
  "quote = CHR 0x27"

text \<open>The body of the loop of \<open>check_naming_conventions\<close> for one node.\<close>

fun naming_visit :: "compiler \<Rightarrow> node \<Rightarrow> node \<Rightarrow> naming_state \<Rightarrow> error + naming_state" where
  "naming_visit compile tree (FunctionDef l a before body after) st =
     (let function_name = names st a
      in if \<not> islower function_name
         then (let violations' = violations st
                     @ [''Function name '' @ [quote] @ function_name @ [quote]
                        @ '' should be in lowercase.''];
                   names' = (names st)(a := lower function_name)
               in case compile tree names' of
                    Some e \<Rightarrow> Inl (SyntaxFailure e)
                  | None \<Rightarrow> Inr \<lparr>names = names', violations = violations',
                                 modified_code = Some (CodeObject tree names')\<rparr>)
         else Inr st)"
| "naming_visit compile tree (Name l a) st =
     (let variable_name = names st a
      in if isupper variable_name
         then (let violations' = violations st
                     @ [''Variable name '' @ [quote] @ variable_name @ [quote]
                        @ '' should not be in uppercase.''];
                   names' = (names st)(a := lower variable_name)
               in case compile tree names' of
                    Some e \<Rightarrow> Inl (SyntaxFailure e)
                  | None \<Rightarrow> Inr \<lparr>names = names', violations = violations',
                                 modified_code = Some (CodeObject tree names')\<rparr>)
         else if \<not> re_match_identifier variable_name
         then Inr (st\<lparr>violations := violations st
                     @ [''Variable name '' @ [quote] @ variable_name @ [quote]
                        @ '' does not follow naming conventions.'']\<rparr>)
         else Inr st)"
| "naming_visit compile tree node st = Inr st"

fun naming_loop :: "compiler \<Rightarrow> node \<Rightarrow> node list \<Rightarrow> naming_state \<Rightarrow> error + naming_state" where
  "naming_loop compile tree [] st = Inr st"
| "naming_loop compile tree (node # rest) st =
     (case naming_visit compile tree node st of
        Inl e \<Rightarrow> Inl e
      | Inr st' \<Rightarrow> naming_loop compile tree rest st')"

text \<open>\<open>check_naming_conventions(tree)\<close>: the result holds the returned pair
  \<open>(violations, modified_code)\<close> and the store the call leaves behind.\<close>

definition check_naming_conventions :: "compiler \<Rightarrow> node \<Rightarrow> store \<Rightarrow> error + naming_state" where
  "check_naming_conventions compile tree s =
     naming_loop compile tree (walk tree) \<lparr>names = s, violations = [], modified_code = None\<rparr>"

text \<open>A \<open>compile\<close> that accepts every tree.\<close>

definition accept :: compiler where
  "accept tree s = None"

section \<open>Properties of the naming checker\<close>

lemma of_char_lower_char:
  "isupper_char c \<Longrightarrow> (of_char (lower_char c) :: nat) = of_char c + 32"
  by (auto simp: isupper_char_def lower_char_def Let_def)

lemma lower_char_islower:
  "isupper_char c \<Longrightarrow> islower_char (lower_char c)"
  using of_char_lower_char [of c] by (auto simp: isupper_char_def islower_char_def Let_def)

lemma lower_char_not_isupper: "\<not> isupper_char (lower_char c)"
proof (cases "isupper_char c")
  case True
  then show ?thesis
    using of_char_lower_char [of c] by (auto simp: isupper_char_def Let_def)
next
  case False
  then show ?thesis by (simp add: lower_char_def)
qed

lemma islower_not_isupper_char: "islower_char c \<Longrightarrow> \<not> isupper_char c"
  by (auto simp: isupper_char_def islower_char_def Let_def)

lemma lower_char_keeps_islower: "islower_char c \<Longrightarrow> islower_char (lower_char c)"
  by (simp add: lower_char_def islower_not_isupper_char)

lemma lower_char_identifier_char: "identifier_char c \<Longrightarrow> identifier_char (lower_char c)"
proof (cases "isupper_char c")
  case True
  assume "identifier_char c"
  then show ?thesis
    using True of_char_lower_char [of c]
    by (auto simp: isupper_char_def identifier_char_def Let_def)
next
  case False
  assume "identifier_char c"
  then show ?thesis using False by (simp add: lower_char_def)
qed

lemma lower_char_identifier_start: "identifier_start c \<Longrightarrow> identifier_start (lower_char c)"
proof (cases "isupper_char c")
  case True
  assume "identifier_start c"
  then show ?thesis
    using True of_char_lower_char [of c]
    by (auto simp: isupper_char_def identifier_start_def Let_def)
next
  case False
  assume "identifier_start c"
  then show ?thesis using False by (simp add: lower_char_def)
qed

lemma lower_char_newline: "lower_char newline = newline"
  by (simp add: lower_char_def isupper_char_def newline_def)

text \<open>A string is cased when it has an uppercase or a lowercase character.\<close>

definition cased :: "string \<Rightarrow> bool" where
  "cased s = (list_ex isupper_char s \<or> list_ex islower_char s)"

lemma lower_not_isupper: "\<not> isupper (lower s)"
  by (simp add: isupper_def lower_def list_ex_iff lower_char_not_isupper)

lemma lower_islower: "cased s \<Longrightarrow> islower (lower s)"
  unfolding cased_def islower_def lower_def list_ex_iff
  using lower_char_islower lower_char_keeps_islower lower_char_not_isupper by fastforce

lemma lower_cased: "cased s \<Longrightarrow> cased (lower s)"
  using lower_islower [of s] by (auto simp: cased_def islower_def)

lemma islower_cased: "islower s \<Longrightarrow> cased s"
  by (simp add: cased_def islower_def)

lemma lower_re_match_identifier:
  assumes "re_match_identifier s"
  shows "re_match_identifier (lower s)"
proof (cases s)
  case Nil
  then show ?thesis using assms by (simp add: re_match_identifier_def)
next
  case (Cons c cs)
  have start: "identifier_start (lower_char c)"
    using assms Cons by (simp add: re_match_identifier_def lower_char_identifier_start)
  have all: "list_all identifier_char (map lower_char xs)" if "list_all identifier_char xs" for xs
    using that by (induction xs) (simp_all add: lower_char_identifier_char)
  from assms Cons consider "list_all identifier_char cs"
    | "cs \<noteq> []" "last cs = newline" "list_all identifier_char (butlast cs)"
    by (auto simp: re_match_identifier_def)
  then show ?thesis
  proof cases
    case 1
    then show ?thesis using Cons start all by (simp add: re_match_identifier_def lower_def)
  next
    case 2
    have "last (map lower_char cs) = newline"
      using 2(1,2) by (simp add: last_map lower_char_newline)
    moreover have "list_all identifier_char (butlast (map lower_char cs))"
      using all [OF 2(3)] by (simp add: map_butlast)
    ultimately show ?thesis
      using Cons start 2(1) by (simp add: re_match_identifier_def lower_def)
  qed
qed

text \<open>What one visit does to a \<open>FunctionDef\<close>: it reports and lowers the name exactly when
  \<open>islower\<close> fails, that is, when the name has an uppercase character or no lowercase
  character at all.\<close>

lemma function_visit:
  "naming_visit compile tree (FunctionDef l a before body after) st =
     (if islower (names st a) then Inr st
      else (case compile tree ((names st)(a := lower (names st a))) of
              Some e \<Rightarrow> Inl (SyntaxFailure e)
            | None \<Rightarrow>
                Inr \<lparr>names = (names st)(a := lower (names st a)),
                     violations = violations st
                       @ [''Function name '' @ [quote] @ names st a @ [quote]
                          @ '' should be in lowercase.''],
                     modified_code =
                       Some (CodeObject tree ((names st)(a := lower (names st a))))\<rparr>))"
  by (simp add: Let_def split: option.splits)

lemma not_islower_iff:
  "\<not> islower s \<longleftrightarrow> list_ex isupper_char s \<or> \<not> list_ex islower_char s"
  by (auto simp: islower_def)

text \<open>The tree of a module that holds one function, named \<open>Foo\<close>, with \<open>pass\<close> as its
  body.\<close>

lemma check_naming_Foo:
  "check_naming_conventions accept
     (Module [FunctionDef 1 0 [Other 1 []] [Other 1 []] []]) ((\<lambda>a. [])(0 := ''Foo''))
   = Inr \<lparr>names = (\<lambda>a. [])(0 := ''foo''),
          violations = [''Function name '' @ [quote] @ ''Foo'' @ [quote]
                        @ '' should be in lowercase.''],
          modified_code =
            Some (CodeObject (Module [FunctionDef 1 0 [Other 1 []] [Other 1 []] []])
                    ((\<lambda>a. [])(0 := ''foo'')))\<rparr>"
proof -
  have "\<not> islower ''Foo''" and "lower ''Foo'' = ''foo''"
    by code_simp+
  then show ?thesis
    by (simp add: check_naming_conventions_def walk_def accept_def Let_def)
qed

text \<open>Stores that differ only by lowered cells.\<close>

definition lowered :: "store \<Rightarrow> store \<Rightarrow> bool" where
  "lowered s s' = (\<forall>a. s' a = s a \<or> s' a = lower (s a))"

lemma lower_lower: "lower (lower s) = lower s"
  by (simp add: lower_def lower_char_def lower_char_not_isupper [unfolded lower_char_def])

lemma lowered_refl: "lowered s s"
  by (simp add: lowered_def)

lemma lowered_trans: "lowered s s1 \<Longrightarrow> lowered s1 s2 \<Longrightarrow> lowered s s2"
  unfolding lowered_def by (metis lower_lower)

lemma lowered_upd: "lowered s (s(a := lower (s a)))"
  by (simp add: lowered_def)

text \<open>A node conforms when its function name is cased, or its identifier matches the
  pattern; it is settled when a visit has nothing to report on it.\<close>

fun conforming :: "store \<Rightarrow> node \<Rightarrow> bool" where
  "conforming s (FunctionDef l a before body after) = cased (s a)"
| "conforming s (Name l a) = re_match_identifier (s a)"
| "conforming s node = True"

fun settled :: "store \<Rightarrow> node \<Rightarrow> bool" where
  "settled s (FunctionDef l a before body after) = islower (s a)"
| "settled s (Name l a) = (\<not> isupper (s a) \<and> re_match_identifier (s a))"
| "settled s node = True"

lemma lowered_conforming:
  assumes "lowered s s'" and "conforming s n"
  shows "conforming s' n"
proof (cases n)
  case (FunctionDef l a before body after)
  then show ?thesis
    using assms lower_cased [of "s a"] by (auto simp: lowered_def dest: spec [of _ a])
next
  case (Name l a)
  then show ?thesis
    using assms lower_re_match_identifier [of "s a"]
    by (auto simp: lowered_def dest: spec [of _ a])
qed simp_all

lemma lowered_settled:
  assumes "lowered s s'" and "settled s n"
  shows "settled s' n"
proof (cases n)
  case (FunctionDef l a before body after)
  then show ?thesis
    using assms lower_islower [of "s a"] islower_cased [of "s a"]
    by (auto simp: lowered_def dest: spec [of _ a])
next
  case (Name l a)
  then show ?thesis
    using assms lower_re_match_identifier [of "s a"] lower_not_isupper [of "s a"]
    by (auto simp: lowered_def dest: spec [of _ a])
qed simp_all

lemma visit_lowered:
  assumes "naming_visit compile tree n st = Inr st'"
  shows "lowered (names st) (names st')"
proof (cases n)
  case (FunctionDef l a before body after)
  then show ?thesis
    using assms lowered_refl lowered_upd
    by (auto simp: Let_def split: if_splits option.splits)
next
  case (Name l a)
  then show ?thesis
    using assms lowered_refl lowered_upd
    by (auto simp: Let_def split: if_splits option.splits)
qed (use assms lowered_refl in auto)

lemma visit_settles:
  assumes "naming_visit compile tree n st = Inr st'" and "conforming (names st) n"
  shows "settled (names st') n"
proof (cases n)
  case (FunctionDef l a before body after)
  then show ?thesis
    using assms lower_islower [of "names st a"]
    by (auto simp: Let_def split: if_splits option.splits)
next
  case (Name l a)
  then show ?thesis
    using assms lower_not_isupper [of "names st a"]
      lower_re_match_identifier [of "names st a"]
    by (auto simp: Let_def split: if_splits option.splits)
qed simp_all

lemma visit_settled:
  "settled (names st) n \<Longrightarrow> naming_visit compile tree n st = Inr st"
  by (cases n) (simp_all add: Let_def)

lemma loop_settled:
  "list_all (settled (names st)) ns \<Longrightarrow> naming_loop compile tree ns st = Inr st"
  by (induction ns) (simp_all add: visit_settled)

lemma loop_settles:
  assumes "naming_loop compile tree ns st = Inr st'"
    and "list_all (conforming (names st)) ns"
  shows "list_all (settled (names st')) ns \<and> lowered (names st) (names st')"
  using assms
proof (induction ns arbitrary: st)
  case Nil
  then show ?case by (simp add: lowered_refl)
next
  case (Cons n ns)
  from Cons.prems(1) obtain st1 where
    v: "naming_visit compile tree n st = Inr st1" and
    r: "naming_loop compile tree ns st1 = Inr st'"
    by (auto split: sum.splits)
  have l1: "lowered (names st) (names st1)"
    using v by (rule visit_lowered)
  have "list_all (conforming (names st1)) ns"
    using Cons.prems(2) l1 by (auto simp: list_all_iff intro: lowered_conforming)
  then have ih: "list_all (settled (names st')) ns" and l2: "lowered (names st1) (names st')"
    using Cons.IH [OF r] by simp_all
  have "settled (names st1) n"
    using v Cons.prems(2) by (auto intro: visit_settles)
  then have "settled (names st') n"
    using l2 by (auto intro: lowered_settled)
  then show ?case
    using ih l1 l2 by (auto intro: lowered_trans)
qed

text \<open>
  C2. On the tree of \<open>def _(): pass\<close> the checker reports
  \<open>Function name '_' should be in lowercase.\<close> and rebuilds the compiled artifact,
  although the name \<open>_\<close> holds no uppercase character: the test \<open>not name.islower()\<close>
  also succeeds on a name without any cased character, and lowering such a name
  changes nothing. The claim that a function name is reported exactly when it
  contains an uppercase character fails on this input; \<open>function_visit\<close>,
  \<open>not_islower_iff\<close> and \<open>check_naming_Foo\<close> above give what the code does in general
  and on \<open>Foo\<close>.
\<close>

theorem caseless_function_name_is_reported:
  "check_naming_conventions accept
     (Module [FunctionDef 1 0 [Other 1 []] [Other 1 []] []]) ((\<lambda>a. [])(0 := ''_''))
   = Inr \<lparr>names = (\<lambda>a. [])(0 := ''_''),
          violations = [''Function name '' @ [quote] @ ''_'' @ [quote]
                        @ '' should be in lowercase.''],
          modified_code =
            Some (CodeObject (Module [FunctionDef 1 0 [Other 1 []] [Other 1 []] []])
                    ((\<lambda>a. [])(0 := ''_'')))\<rparr>
   \<and> list_ex isupper_char ''_'' = False"
proof -
  have "\<not> islower ''_''" and "lower ''_'' = ''_''" and "list_ex isupper_char ''_'' = False"
    by code_simp+
  then show ?thesis
    by (simp add: check_naming_conventions_def walk_def accept_def Let_def)
qed

text \<open>The checker run a second time on the tree as the first run left it.\<close>

definition check_twice :: "compiler \<Rightarrow> node \<Rightarrow> store \<Rightarrow> error + naming_state" where
  "check_twice compile tree s =
     (case check_naming_conventions compile tree s of
        Inl e \<Rightarrow> Inl e
      | Inr st \<Rightarrow> check_naming_conventions compile tree (names st))"

text \<open>
  C5, as stated, fails: on the tree of \<open>e = 1\<close> with the identifier spelled with the
  letter U+00E9, the identifier is not uppercase and does not match the pattern, so it
  is reported and not rewritten, and the second run reports it again.
\<close>

theorem second_check_repeats_pattern_violation:
  "check_twice accept (Module [Other 1 [Name 1 0, Other 1 []]]) ((\<lambda>a. [])(0 := [CHR 0xE9]))
   = Inr \<lparr>names = (\<lambda>a. [])(0 := [CHR 0xE9]),
          violations = [''Variable name '' @ [quote] @ [CHR 0xE9] @ [quote]
                        @ '' does not follow naming conventions.''],
          modified_code = None\<rparr>"
proof -
  have "\<not> isupper [CHR 0xE9]" and "\<not> re_match_identifier [CHR 0xE9]"
    by code_simp+
  then show ?thesis
    by (simp add: check_twice_def check_naming_conventions_def walk_def accept_def Let_def)
qed

text \<open>
  C5, amended. For a tree in which every function name has a cased character and every
  identifier matches the pattern \<open>^[a-zA-Z_][a-zA-Z0-9_]*$\<close>, whenever the first run of
  the checker returns, a second run on the tree as the first left it returns an empty
  violation list; it rewrites nothing and builds no artifact.
\<close>

theorem second_check_finds_nothing:
  assumes "list_all (conforming s) (walk tree)"
    and "check_naming_conventions compile tree s = Inr st"
  shows "check_twice compile tree s
         = Inr \<lparr>names = names st, violations = [], modified_code = None\<rparr>"
proof -
  have "list_all (settled (names st)) (walk tree)"
    using loop_settles [of compile tree "walk tree" _ st] assms
    by (simp add: check_naming_conventions_def)
  then have "check_naming_conventions compile tree (names st)
      = Inr \<lparr>names = names st, violations = [], modified_code = None\<rparr>"
    unfolding check_naming_conventions_def by (intro loop_settled) simp
  then show ?thesis
    using assms(2) by (simp add: check_twice_def)
qed

theorem second_check_finds_nothing_witness:
  "check_twice accept
     (Module [FunctionDef 1 0 [Other 1 []] [Other 2 [Name 2 2, Other 2 []]] []])
     ((\<lambda>a. [])(0 := ''Foo'', 2 := ''MAX''))
   = Inr \<lparr>names = (\<lambda>a. [])(0 := ''foo'', 2 := ''max''), violations = [],
          modified_code = None\<rparr>"
proof -
  let ?tree = "Module [FunctionDef 1 0 [Other 1 []] [Other 2 [Name 2 2, Other 2 []]] []]"
  let ?s = "(\<lambda>a. [])(0 := ''Foo'', 2 := ''MAX'')"
  have f: "\<not> islower ''Foo''" "lower ''Foo'' = ''foo''" "isupper ''MAX''"
    "lower ''MAX'' = ''max''" "cased ''Foo''" "re_match_identifier ''MAX''"
    by code_simp+
  have h: "list_all (conforming ?s) (walk ?tree)"
    by (simp add: walk_def f)
  have first: "check_naming_conventions accept ?tree ?s
    = Inr \<lparr>names = (\<lambda>a. [])(0 := ''foo'', 2 := ''max''),
           violations = [''Function name '' @ [quote] @ ''Foo'' @ [quote]
                          @ '' should be in lowercase.'',
                         ''Variable name '' @ [quote] @ ''MAX'' @ [quote]
                          @ '' should not be in uppercase.''],
           modified_code = Some (CodeObject ?tree ((\<lambda>a. [])(0 := ''foo'', 2 := ''max'')))\<rparr>"
    by (simp add: check_naming_conventions_def walk_def accept_def Let_def f fun_upd_twist)
  show ?thesis
    using second_check_finds_nothing [OF h first] by simp
qed


section \<open>Style recommendations\<close>

text \<open>Python's \<open>xs[i]\<close>, \<open>xs[:i]\<close> and \<open>xs[i:]\<close> for an integer \<open>i\<close>: a negative index counts
  from the end, an index out of range raises \<open>IndexError\<close>, a slice bound is clipped.\<close>

definition py_index :: "'a list \<Rightarrow> int \<Rightarrow> error + 'a" where
  "py_index xs i =
     (let n = int (length xs); k = (if i < 0 then i + n else i)
      in if 0 \<le> k \<and> k < n then Inr (xs ! nat k) else Inl IndexError)"

definition slice_to :: "'a list \<Rightarrow> int \<Rightarrow> 'a list" where
  "slice_to xs i = take (nat (if i < 0 then i + int (length xs) else i)) xs"

definition slice_from :: "'a list \<Rightarrow> int \<Rightarrow> 'a list" where
  "slice_from xs i = drop (nat (if i < 0 then i + int (length xs) else i)) xs"

text \<open>\<open>str(n)\<close> for a natural number, as the f-strings print it.\<close>

function str_nat :: "nat \<Rightarrow> string" where
  "str_nat n =
     (if n < 10 then [char_of (48 + n)]
      else str_nat (n div 10) @ [char_of (48 + n mod 10)])"
  by pat_completeness auto
termination
  by (relation "measure (\<lambda>n. n)") auto

declare str_nat.simps [simp del]

text \<open>\<open>node.body\<close>, and \<open>not ast.get_docstring(node)\<close>: the node has no docstring, or one
  that is empty once cleaned.\<close>

fun node_body :: "node \<Rightarrow> node list" where
  "node_body (Module body) = body"
| "node_body (FunctionDef l a before body after) = body"
| "node_body (ClassDef l name before body after) = body"
| "node_body node = []"

definition get_docstring :: "node \<Rightarrow> string option" where
  "get_docstring node =
     (case node_body node of
        DocExpr l d # rest \<Rightarrow> Some d
      | _ \<Rightarrow> None)"

definition undocumented :: "node \<Rightarrow> bool" where
  "undocumented node = (case get_docstring node of None \<Rightarrow> True | Some d \<Rightarrow> d = [])"

text \<open>\<open>line_number = node.body[0].lineno\<close> and the line
  \<open>code.split("\n")[line_number - 1]\<close>, with the errors the three lookups can raise.\<close>

definition first_body_line :: "string \<Rightarrow> node list \<Rightarrow> error + int \<times> string" where
  "first_body_line code body =
     (case body of
        [] \<Rightarrow> Inl IndexError
      | first # rest \<Rightarrow>
          (case lineno first of
             None \<Rightarrow> Inl AttributeError
           | Some line_number \<Rightarrow>
               (case py_index (split_nl code) (line_number - 1) of
                  Inl e \<Rightarrow> Inl e
                | Inr line \<Rightarrow> Inr (line_number, line))))"

text \<open>The body of the first loop of \<open>recommend_coding_style\<close> for one node; the state is
  the pair of \<open>recommendations\<close> and \<open>modified_code\<close>, the latter written \<open>modified\<close>
  here. The slices of \<open>modified\<close> are
  slices of a string: \<open>line_number - 1\<close> is used as a character offset.\<close>

fun style_visit ::
  "string \<Rightarrow> store \<Rightarrow> node \<Rightarrow> string list \<times> string \<Rightarrow> error + string list \<times> string" where
  "style_visit code s (FunctionDef l a before body after) (recommendations, modified) =
     (if undocumented (FunctionDef l a before body after)
      then (case first_body_line code body of
              Inl e \<Rightarrow> Inl e
            | Inr (line_number, line) \<Rightarrow>
                if startswith (strip line) ''#'' then Inr (recommendations, modified)
                else Inr (recommendations
                            @ [''Consider adding comments to function '' @ [quote] @ s a
                               @ [quote] @ ''.''],
                          slice_to modified (line_number - 1)
                            @ [newline] @ ''# Add comments here'' @ [newline]
                            @ slice_from modified (line_number - 1)))
      else Inr (recommendations, modified))"
| "style_visit code s (ClassDef l name before body after) (recommendations, modified) =
     (if undocumented (ClassDef l name before body after)
      then (case first_body_line code body of
              Inl e \<Rightarrow> Inl e
            | Inr (line_number, line) \<Rightarrow>
                if startswith (strip line) ''#'' then Inr (recommendations, modified)
                else Inr (recommendations
                            @ [''Consider adding comments to class '' @ [quote] @ name
                               @ [quote] @ ''.''],
                          slice_to modified (line_number - 1)
                            @ [newline] @ ''# Add comments here'' @ [newline]
                            @ slice_from modified (line_number - 1)))
      else Inr (recommendations, modified))"
| "style_visit code s (Module body) (recommendations, modified) =
     (if undocumented (Module body)
      then (case py_index (split_nl code) 0 of
              Inl e \<Rightarrow> Inl e
            | Inr line \<Rightarrow>
                if startswith (strip line) ''#'' then Inr (recommendations, modified)
                else Inr (recommendations @ [''Consider adding comments here.''],
                          ''# Add comments here'' @ [newline] @ modified))
      else Inr (recommendations, modified))"
| "style_visit code s node (recommendations, modified) =
     Inr (recommendations, modified)"

fun style_loop ::
  "string \<Rightarrow> store \<Rightarrow> node list \<Rightarrow> string list \<times> string \<Rightarrow> error + string list \<times> string" where
  "style_loop code s [] st = Inr st"
| "style_loop code s (node # rest) st =
     (case style_visit code s node st of
        Inl e \<Rightarrow> Inl e
      | Inr st' \<Rightarrow> style_loop code s rest st')"

text \<open>The second loop, over \<open>enumerate(lines, start=1)\<close>, with \<open>line_length_limit = 79\<close>.\<close>

fun line_length_loop :: "(nat \<times> string) list \<Rightarrow> string list \<times> string \<Rightarrow> string list \<times> string" where
  "line_length_loop [] st = st"
| "line_length_loop ((i, line) # rest) (recommendations, modified) =
     line_length_loop rest
       (if 79 < length line
        then (recommendations
                @ [''Consider splitting line '' @ str_nat i
                   @ '' as it exceeds the line length limit of '' @ str_nat 79
                   @ '' characters.''],
              slice_to modified (int i - 1) @ [CHR 0x5C, newline]
                @ slice_from modified (int i))
        else (recommendations, modified))"

text \<open>The result of \<open>recommend_coding_style\<close>: the returned pair, and the lines the call
  prints.\<close>

record style_result =
  recommended :: "string list"
  modified_text :: string
  printed :: "string list"

definition recommend_on :: "node \<Rightarrow> store \<Rightarrow> string \<Rightarrow> error + style_result" where
  "recommend_on tree s code =
     (case style_loop code s (walk tree) ([], code) of
        Inl e \<Rightarrow> Inl e
      | Inr st \<Rightarrow>
          (case line_length_loop (enumerate 1 (split_nl code)) st of
             (recommendations, modified) \<Rightarrow>
               (case (if recommendations = []
                      then ([''No coding style recommendations found.''],
                            ''No modified actions applied'')
                      else (recommendations, modified)) of
                  (recommendations, modified) \<Rightarrow>
                    Inr \<lparr>recommended = recommendations,
                         modified_text = modified,
                         printed = concat (map (\<lambda>recommendation.
                             [''Recommended coding style: '', recommendation])
                           recommendations)\<rparr>)))"

text \<open>\<open>ast.parse\<close> is a parameter: it returns a tree with its store, or the
  \<open>SyntaxError\<close> it raises.\<close>

type_synonym parser = "string \<Rightarrow> syntax_error + node \<times> store"

definition recommend_coding_style :: "parser \<Rightarrow> string \<Rightarrow> error + style_result" where
  "recommend_coding_style parse code =
     (case parse code of
        Inl e \<Rightarrow> Inl (SyntaxFailure e)
      | Inr (tree, s) \<Rightarrow> recommend_on tree s code)"

section \<open>Properties of the style recommender\<close>

text \<open>A function or class definition that lacks a docstring and whose first body
  statement starts on a line that is not a comment, and the message it gets.\<close>

fun needs_comment :: "string \<Rightarrow> node \<Rightarrow> bool" where
  "needs_comment code (FunctionDef l a before body after) =
     (undocumented (FunctionDef l a before body after)
      \<and> (case first_body_line code body of
           Inl e \<Rightarrow> False
         | Inr (line_number, line) \<Rightarrow> \<not> startswith (strip line) ''#''))"
| "needs_comment code (ClassDef l name before body after) =
     (undocumented (ClassDef l name before body after)
      \<and> (case first_body_line code body of
           Inl e \<Rightarrow> False
         | Inr (line_number, line) \<Rightarrow> \<not> startswith (strip line) ''#''))"
| "needs_comment code node = False"

fun message_for :: "store \<Rightarrow> node \<Rightarrow> string" where
  "message_for s (FunctionDef l a before body after) =
     ''Consider adding comments to function '' @ [quote] @ s a @ [quote] @ ''.''"
| "message_for s (ClassDef l name before body after) =
     ''Consider adding comments to class '' @ [quote] @ name @ [quote] @ ''.''"
| "message_for s node = []"

text \<open>A node the first loop passes over: a module, function or class definition with a
  docstring, or a node of another kind.\<close>

fun quiet :: "node \<Rightarrow> bool" where
  "quiet (Module body) = (\<not> undocumented (Module body))"
| "quiet (FunctionDef l a before body after) =
     (\<not> undocumented (FunctionDef l a before body after))"
| "quiet (ClassDef l name before body after) =
     (\<not> undocumented (ClassDef l name before body after))"
| "quiet node = True"

lemma style_visit_grows:
  assumes "style_visit code s n (recs, m) = Inr (recs', m')"
  shows "set recs \<subseteq> set recs' \<and> (needs_comment code n \<longrightarrow> message_for s n \<in> set recs')"
  using assms
  by (cases n) (auto split: if_splits sum.splits prod.splits)

lemma style_loop_grows:
  assumes "style_loop code s ns (recs, m) = Inr (recs', m')"
  shows "set recs \<subseteq> set recs'
         \<and> (\<forall>n\<in>set ns. needs_comment code n \<longrightarrow> message_for s n \<in> set recs')"
  using assms
proof (induction ns arbitrary: recs m)
  case Nil
  then show ?case by simp
next
  case (Cons n ns)
  from Cons.prems obtain recs1 m1 where
    v: "style_visit code s n (recs, m) = Inr (recs1, m1)" and
    r: "style_loop code s ns (recs1, m1) = Inr (recs', m')"
    by (auto split: sum.splits)
  have a: "set recs \<subseteq> set recs1" "needs_comment code n \<longrightarrow> message_for s n \<in> set recs1"
    using style_visit_grows [OF v] by simp_all
  have b: "set recs1 \<subseteq> set recs'"
    "\<forall>n\<in>set ns. needs_comment code n \<longrightarrow> message_for s n \<in> set recs'"
    using Cons.IH [OF r] by simp_all
  show ?case using a b by auto
qed

lemma line_length_loop_grows:
  "line_length_loop ps (recs, m) = (recs', m') \<Longrightarrow> set recs \<subseteq> set recs'"
proof (induction ps arbitrary: recs m)
  case Nil
  then show ?case by simp
next
  case (Cons p ps)
  obtain i line where p: "p = (i, line)" by (cases p)
  show ?case
  proof (cases "79 < length line")
    case True
    then have "set (recs @ [''Consider splitting line '' @ str_nat i
                   @ '' as it exceeds the line length limit of '' @ str_nat 79
                   @ '' characters.'']) \<subseteq> set recs'"
      using Cons.prems unfolding p by (intro Cons.IH) simp
    then show ?thesis by simp
  next
    case False
    then show ?thesis using Cons.prems unfolding p by (intro Cons.IH) simp
  qed
qed

lemma recommend_on_mentions:
  assumes "recommend_on tree s code = Inr res"
    and "n \<in> set (walk tree)" and "needs_comment code n"
  shows "message_for s n \<in> set (recommended res)"
proof -
  from assms(1) obtain recs1 m1 where
    l1: "style_loop code s (walk tree) ([], code) = Inr (recs1, m1)"
    by (auto simp: recommend_on_def split: sum.splits)
  obtain recs2 m2 where
    l2: "line_length_loop (enumerate 1 (split_nl code)) (recs1, m1) = (recs2, m2)"
    by (cases "line_length_loop (enumerate 1 (split_nl code)) (recs1, m1)")
  have "message_for s n \<in> set recs1"
    using style_loop_grows [OF l1] assms(2,3) by blast
  then have in2: "message_for s n \<in> set recs2"
    using line_length_loop_grows [OF l2] by blast
  then have "recs2 \<noteq> []" by auto
  then have "recommended res = recs2"
    using assms(1) l1 l2 by (auto simp: recommend_on_def)
  then show ?thesis using in2 by simp
qed

lemma split_nl_one_line: "newline \<notin> set code \<Longrightarrow> split_nl code = [code]"
  by (induction code) auto

lemma style_visit_quiet: "quiet n \<Longrightarrow> style_visit code s n st = Inr st"
  by (cases n; cases st) simp_all

lemma style_loop_quiet: "list_all quiet ns \<Longrightarrow> style_loop code s ns st = Inr st"
  by (induction ns) (simp_all add: style_visit_quiet)

lemma walk_Module: "walk (Module body) = Module body # walk_queue body"
  by (simp add: walk_def)

lemma recommend_on_one_line:
  assumes "newline \<notin> set code" and "length code \<le> 79"
    and "\<not> startswith (strip code) ''#''"
    and "undocumented (Module body)" and "list_all quiet (walk_queue body)"
  shows "recommend_on (Module body) s code =
           Inr \<lparr>recommended = [''Consider adding comments here.''],
                modified_text = ''# Add comments here'' @ [newline] @ code,
                printed = [''Recommended coding style: '', ''Consider adding comments here.'']\<rparr>"
proof -
  have lines: "split_nl code = [code]"
    using assms(1) by (rule split_nl_one_line)
  have "style_visit code s (Module body) ([], code) =
      Inr ([''Consider adding comments here.''], ''# Add comments here'' @ [newline] @ code)"
    using assms(3,4) by (simp add: lines py_index_def)
  then have "style_loop code s (walk (Module body)) ([], code) =
      Inr ([''Consider adding comments here.''], ''# Add comments here'' @ [newline] @ code)"
    using style_loop_quiet [OF assms(5)] by (simp add: walk_Module)
  then show ?thesis
    using assms(2) by (simp add: recommend_on_def lines)
qed

text \<open>Where the placeholder lands. For the text \<open># c\<close>, \<open>def f():\<close>, \<open>    pass\<close> (three
  lines) the first body statement of \<open>f\<close> is on line 3; the code slices the working copy
  at the character offset 2, after \<open>#\<close> and the blank of line 1.\<close>

lemma placeholder_at_character_offset:
  "recommend_on (Module [FunctionDef 2 0 [Other 2 []] [Other 3 []] []]) ((\<lambda>a. [])(0 := ''f''))
     (''# c'' @ [newline] @ ''def f():'' @ [newline] @ ''    pass'')
   = Inr \<lparr>recommended =
            [''Consider adding comments to function '' @ [quote] @ ''f'' @ [quote] @ ''.''],
          modified_text =
            ''# '' @ [newline] @ ''# Add comments here'' @ [newline]
              @ ''c'' @ [newline] @ ''def f():'' @ [newline] @ ''    pass'',
          printed =
            [''Recommended coding style: '',
             ''Consider adding comments to function '' @ [quote] @ ''f'' @ [quote] @ ''.'']\<rparr>"
  by code_simp

text \<open>
  C3, as stated, fails: the module \<open>def f(): pass\<close> is one line, is not a comment and
  has no documentation, and it gets two recommendations, one for the module and one
  for the function, and two placeholders.
\<close>

theorem one_line_function_gets_two_recommendations:
  "recommend_on (Module [FunctionDef 1 0 [Other 1 []] [Other 1 []] []]) ((\<lambda>a. [])(0 := ''f''))
     ''def f(): pass''
   = Inr \<lparr>recommended =
            [''Consider adding comments here.'',
             ''Consider adding comments to function '' @ [quote] @ ''f'' @ [quote] @ ''.''],
          modified_text =
            [newline] @ ''# Add comments here'' @ [newline]
              @ ''# Add comments here'' @ [newline] @ ''def f(): pass'',
          printed =
            [''Recommended coding style: '', ''Consider adding comments here.'',
             ''Recommended coding style: '',
             ''Consider adding comments to function '' @ [quote] @ ''f'' @ [quote] @ ''.'']\<rparr>"
  by code_simp

text \<open>
  C3, amended. Whenever the recommender returns, its recommendations hold the message
  naming every \<open>FunctionDef\<close> and \<open>ClassDef\<close> node of the tree that lacks a docstring and
  whose first body statement starts on a line that is not a comment. For a module of
  one line of at most 79 characters that is not a comment, has no docstring and holds
  no function or class definition without one, the recommendations are exactly
  \<open>Consider adding comments here.\<close> and the modified text is the placeholder line
  followed by the original text. Where the placeholder of a function or class goes is
  left open.
\<close>

theorem style_recommendations:
  "(recommend_on tree s code = Inr res \<longrightarrow>
      (\<forall>n\<in>set (walk tree). needs_comment code n \<longrightarrow> message_for s n \<in> set (recommended res)))
   \<and> (newline \<notin> set code \<and> length code \<le> 79 \<and> \<not> startswith (strip code) ''#''
        \<and> undocumented (Module body) \<and> list_all quiet (walk_queue body) \<longrightarrow>
      recommend_on (Module body) s code =
        Inr \<lparr>recommended = [''Consider adding comments here.''],
             modified_text = ''# Add comments here'' @ [newline] @ code,
             printed = [''Recommended coding style: '', ''Consider adding comments here.'']\<rparr>)"
  using recommend_on_mentions [of tree s code res] recommend_on_one_line [of code body s]
  by blast

theorem style_recommendations_witness:
  "recommend_on (Module [ClassDef 2 ''A'' [] [Other 3 [Name 3 0, Other 3 []]] []])
       ((\<lambda>a. [])(0 := ''x'')) (''# c'' @ [newline] @ ''class A:'' @ [newline] @ ''    x = 1'')
     = Inr \<lparr>recommended =
             [''Consider adding comments to class '' @ [quote] @ ''A'' @ [quote] @ ''.''],
           modified_text =
             ''# '' @ [newline] @ ''# Add comments here'' @ [newline]
               @ ''c'' @ [newline] @ ''class A:'' @ [newline] @ ''    x = 1'',
           printed =
             [''Recommended coding style: '',
              ''Consider adding comments to class '' @ [quote] @ ''A'' @ [quote] @ ''.'']\<rparr>
   \<and> ''Consider adding comments to class '' @ [quote] @ ''A'' @ [quote] @ ''.''
     \<in> set (recommended
          \<lparr>recommended =
             [''Consider adding comments to class '' @ [quote] @ ''A'' @ [quote] @ ''.''],
           modified_text =
             ''# '' @ [newline] @ ''# Add comments here'' @ [newline]
               @ ''c'' @ [newline] @ ''class A:'' @ [newline] @ ''    x = 1'',
           printed =
             [''Recommended coding style: '',
              ''Consider adding comments to class '' @ [quote] @ ''A'' @ [quote] @ ''.'']\<rparr>)
   \<and> recommend_on (Module [Other 1 [Name 1 0, Other 1 []]]) ((\<lambda>a. [])(0 := ''x'')) ''x = 1''
       = Inr \<lparr>recommended = [''Consider adding comments here.''],
              modified_text = ''# Add comments here'' @ [newline] @ ''x = 1'',
              printed = [''Recommended coding style: '', ''Consider adding comments here.'']\<rparr>"
proof -
  let ?tree = "Module [ClassDef 2 ''A'' [] [Other 3 [Name 3 0, Other 3 []]] []]"
  let ?s = "(\<lambda>a. [])(0 := ''x'')"
  let ?code = "''# c'' @ [newline] @ ''class A:'' @ [newline] @ ''    x = 1''"
  let ?res = "\<lparr>recommended =
             [''Consider adding comments to class '' @ [quote] @ ''A'' @ [quote] @ ''.''],
           modified_text =
             ''# '' @ [newline] @ ''# Add comments here'' @ [newline]
               @ ''c'' @ [newline] @ ''class A:'' @ [newline] @ ''    x = 1'',
           printed =
             [''Recommended coding style: '',
              ''Consider adding comments to class '' @ [quote] @ ''A'' @ [quote] @ ''.'']\<rparr>"
  let ?node = "ClassDef 2 ''A'' [] [Other 3 [Name 3 0, Other 3 []]] []"
  have run: "recommend_on ?tree ?s ?code = Inr ?res"
    by code_simp
  have node: "?node \<in> set (walk ?tree)"
    by (simp add: walk_def)
  have needs: "needs_comment ?code ?node"
    by code_simp
  have msg: "message_for ?s ?node
      = ''Consider adding comments to class '' @ [quote] @ ''A'' @ [quote] @ ''.''"
    by simp
  have one: "newline \<notin> set ''x = 1''" "length ''x = 1'' \<le> 79"
    "\<not> startswith (strip ''x = 1'') ''#''"
    "undocumented (Module [Other 1 [Name 1 0, Other 1 []]])"
    "list_all quiet (walk_queue [Other 1 [Name 1 0, Other 1 []]])"
    by code_simp+
  have first: "message_for ?s ?node \<in> set (recommended ?res)"
    using style_recommendations [of ?tree ?s ?code ?res "[]"] run node needs
    by blast
  have second: "recommend_on (Module [Other 1 [Name 1 0, Other 1 []]]) ?s ''x = 1''
       = Inr \<lparr>recommended = [''Consider adding comments here.''],
              modified_text = ''# Add comments here'' @ [newline] @ ''x = 1'',
              printed = [''Recommended coding style: '', ''Consider adding comments here.'']\<rparr>"
    using style_recommendations
      [of ?tree ?s "''x = 1''" ?res "[Other 1 [Name 1 0, Other 1 []]]"] one
    by blast
  show ?thesis
    using run first second unfolding msg by (intro conjI)
qed

section \<open>The whole analysis\<close>

record analysis_result =
  complexity_score :: int
  quality_score :: int
  average_function_length :: rat
  naming_violations :: "string list \<times> code_object option"
  style :: "string list \<times> string"
  stdout :: "string list"

text \<open>\<open>analyze_code\<close>: the two scores, then \<open>ast.parse\<close>, the average, the naming check on
  that tree, and \<open>recommend_coding_style\<close>, which parses the text again for a tree of its
  own. An exception raised on the way ends the call.\<close>

definition analyze_code :: "parser \<Rightarrow> compiler \<Rightarrow> string \<Rightarrow> error + analysis_result" where
  "analyze_code parse compile code =
     (let complexity = analyze_code_complexity code;
          quality = analyze_code_quality code
      in case parse code of
           Inl e \<Rightarrow> Inl (SyntaxFailure e)
         | Inr (tree, s) \<Rightarrow>
             (case calculate_average_function_length tree of
                Inl e \<Rightarrow> Inl e
              | Inr average \<Rightarrow>
                  (case check_naming_conventions compile tree s of
                     Inl e \<Rightarrow> Inl e
                   | Inr checked \<Rightarrow>
                       (case recommend_coding_style parse code of
                          Inl e \<Rightarrow> Inl e
                        | Inr res \<Rightarrow>
                            Inr \<lparr>complexity_score = complexity,
                                 quality_score = quality,
                                 average_function_length = average,
                                 naming_violations = (violations checked, modified_code checked),
                                 style = (recommended res, modified_text res),
                                 stdout = printed res\<rparr>))))"

text \<open>The \<open>try\<close> statement of the main program around \<open>analyze_code\<close>: a \<open>SyntaxError\<close> is
  caught, \<open>Invalid syntax in the provided code.\<close> and the error are printed and the
  process exits with status 1; any other exception is not caught; otherwise the
  program goes on with the result.\<close>

datatype outcome =
    Rejected "string list" syntax_error nat
  | Uncaught error
  | Analysed analysis_result

definition main_analysis :: "parser \<Rightarrow> compiler \<Rightarrow> string \<Rightarrow> outcome" where
  "main_analysis parse compile code =
     (case analyze_code parse compile code of
        Inl (SyntaxFailure e) \<Rightarrow> Rejected [''Invalid syntax in the provided code.''] e 1
      | Inl e \<Rightarrow> Uncaught e
      | Inr analysis_results \<Rightarrow> Analysed analysis_results)"

section \<open>Properties of the whole analysis\<close>

lemma analyze_code_parse_failure:
  "parse code = Inl e \<Longrightarrow> analyze_code parse compile code = Inl (SyntaxFailure e)"
  by (simp add: analyze_code_def Let_def)

lemma naming_visit_accept:
  "\<exists>st'. naming_visit accept tree n st = Inr st'"
  by (cases n) (simp_all add: accept_def Let_def)

lemma naming_loop_accept:
  "\<exists>st'. naming_loop accept tree ns st = Inr st'"
proof (induction ns arbitrary: st)
  case Nil
  then show ?case by simp
next
  case (Cons n ns)
  obtain st1 where "naming_visit accept tree n st = Inr st1"
    using naming_visit_accept by blast
  then show ?case using Cons.IH [of st1] by simp
qed

lemma recommend_on_no_syntax_failure:
  "recommend_on tree s code \<noteq> Inl (SyntaxFailure e)"
proof -
  have v: "style_visit code s n st \<noteq> Inl (SyntaxFailure e)" for n st
    by (cases n; cases st)
      (auto simp: first_body_line_def py_index_def Let_def
        split: sum.splits list.splits option.splits if_splits)
  have l: "style_loop code s ns st \<noteq> Inl (SyntaxFailure e)" for ns st
    by (induction ns arbitrary: st) (auto simp: v split: sum.splits)
  show ?thesis
    using l [of "walk tree" "([], code)"]
    by (auto simp: recommend_on_def split: sum.splits prod.splits)
qed

lemma average_no_syntax_failure:
  "calculate_average_function_length tree \<noteq> Inl (SyntaxFailure e)"
  by (simp add: calculate_average_function_length_def true_divide_def Let_def)

text \<open>When \<open>compile\<close> rejects nothing, a syntax failure comes from the parser alone.\<close>

lemma analyze_code_accept_syntax_failure:
  "analyze_code parse accept code = Inl (SyntaxFailure e) \<longleftrightarrow> parse code = Inl e"
proof
  assume "parse code = Inl e"
  then show "analyze_code parse accept code = Inl (SyntaxFailure e)"
    by (rule analyze_code_parse_failure)
next
  assume a: "analyze_code parse accept code = Inl (SyntaxFailure e)"
  show "parse code = Inl e"
  proof (cases "parse code")
    case (Inl e')
    then show ?thesis using a by (simp add: analyze_code_def Let_def)
  next
    case (Inr p)
    obtain tree s where p: "p = (tree, s)" by (cases p)
    obtain checked where c: "check_naming_conventions accept tree s = Inr checked"
      using naming_loop_accept unfolding check_naming_conventions_def by blast
    have "analyze_code parse accept code \<noteq> Inl (SyntaxFailure e)"
      using Inr p c recommend_on_no_syntax_failure [of tree s code e]
        average_no_syntax_failure [of tree e]
      by (auto simp: analyze_code_def recommend_coding_style_def Let_def split: sum.splits)
    then show ?thesis using a by simp
  qed
qed

text \<open>The parser counts a lone carriage return as a line break, \<open>split("\\n")\<close> does not:
  for the text \<open>def f():\<close>, carriage return, \<open>  pass\<close> the body of \<open>f\<close> is on line 2 of
  a text that splits into one line, and the lookup of that line raises \<open>IndexError\<close>.\<close>

lemma carriage_return_raises_index_error:
  "recommend_on (Module [FunctionDef 1 0 [Other 1 []] [Other 2 []] []]) ((\<lambda>a. [])(0 := ''f''))
     (''def f():'' @ [CHR 0x0D] @ ''  pass'') = Inl IndexError"
  by code_simp

text \<open>
  The parser and the compiler at the text \<open>__DEBUG__ = 1\<close>, as CPython has them:
  \<open>ast.parse\<close> returns a module with one assignment to the name \<open>__DEBUG__\<close>, and \<open>compile\<close>
  raises \<open>SyntaxError: cannot assign to __debug__\<close> for a tree that assigns to the name
  \<open>__debug__\<close>.
\<close>

definition parse_debug :: parser where
  "parse_debug code =
     (if code = ''__DEBUG__ = 1''
      then Inr (Module [Other 1 [Name 1 0, Other 1 []]], (\<lambda>a. [])(0 := ''__DEBUG__''))
      else Inl (SyntaxError ''invalid syntax'' 1 1))"

definition compile_debug :: compiler where
  "compile_debug tree s =
     (if s 0 = ''__debug__'' then Some (SyntaxError ''cannot assign to __debug__'' 1 1) else None)"

text \<open>
  C6. For the text \<open>__DEBUG__ = 1\<close> the parser returns a tree, and the analysis still ends
  with a syntax failure: the naming check lowers the uppercase identifier to
  \<open>__debug__\<close> and recompiles the tree, \<open>compile\<close> raises \<open>SyntaxError\<close>, and the main
  program reports \<open>Invalid syntax in the provided code.\<close> and exits with status 1. So a
  syntax failure is not raised only when the text cannot be parsed.
  \<open>analyze_code_parse_failure\<close> and \<open>analyze_code_accept_syntax_failure\<close> above give the
  part that holds: a parse failure always ends the analysis with that failure, and it
  is the only source of one as long as \<open>compile\<close> accepts the renamed tree.
\<close>

theorem syntax_failure_for_parsed_text:
  "parse_debug ''__DEBUG__ = 1''
     = Inr (Module [Other 1 [Name 1 0, Other 1 []]], (\<lambda>a. [])(0 := ''__DEBUG__''))
   \<and> analyze_code parse_debug compile_debug ''__DEBUG__ = 1''
     = Inl (SyntaxFailure (SyntaxError ''cannot assign to __debug__'' 1 1))
   \<and> main_analysis parse_debug compile_debug ''__DEBUG__ = 1''
     = Rejected [''Invalid syntax in the provided code.'']
         (SyntaxError ''cannot assign to __debug__'' 1 1) 1"
proof -
  have u: "isupper ''__DEBUG__''" "lower ''__DEBUG__'' = ''__debug__''"
    by code_simp+
  have a: "analyze_code parse_debug compile_debug ''__DEBUG__ = 1''
     = Inl (SyntaxFailure (SyntaxError ''cannot assign to __debug__'' 1 1))"
    by (simp add: analyze_code_def parse_debug_def compile_debug_def
        calculate_average_function_length_def check_naming_conventions_def walk_def Let_def u)
  show ?thesis
    using a by (simp add: main_analysis_def parse_debug_def)
qed

end
